theory Spec2Isabelle
  imports Main "HOL-Library.Word"
begin

section \<open>Basic types of package io\<close>

text \<open>
  A byte slice is a list of bytes; \<open>len(p)\<close> is its length and its capacity is taken to
  be its length. Go's \<open>int64\<close> is a 64-bit word read as two's complement (\<open>sint\<close>), so
  \<open>+\<close> and \<open>-\<close> wrap around as they do in Go; Go's \<open>int\<close> is taken at its 64-bit width.
  A nil error is \<open>None\<close>.
\<close>

type_synonym byte = "8 word"
type_synonym int64 = "64 word"

datatype error = EOF | ErrUnexpectedEOF | ErrShortWrite | errInvalidWrite
  | ErrShortBuffer | ErrNoProgress | errWhence | errOffset | OtherError string

text \<open>
  A call either returns, panics (a slice expression out of range), or has not returned
  within the number of loop iterations the model was given.
\<close>

datatype 'a outcome = Return 'a | Panic | NoReturn

definition SeekStart :: int64 where "SeekStart = 0"
definition SeekCurrent :: int64 where "SeekCurrent = 1"
definition SeekEnd :: int64 where "SeekEnd = 2"

definition maxint64 :: int64 where "maxint64 = 9223372036854775807"

text \<open>\<open>int64(len(p))\<close>\<close>

definition len_int64 :: "byte list \<Rightarrow> int64" where
  "len_int64 p = of_nat (length p)"

text \<open>
  An interface value is a method together with the state of the object behind it: the
  method is a function from the state and the arguments to the results and the new state.
  \<open>Read\<close> and \<open>ReadAt\<close> also return the new contents of the slice they were handed.
\<close>

type_synonym 'r Read = "'r \<Rightarrow> byte list \<Rightarrow> (byte list \<times> int64 \<times> error option) \<times> 'r"
type_synonym 'w Write = "'w \<Rightarrow> byte list \<Rightarrow> (int64 \<times> error option) \<times> 'w"
type_synonym 'u ReadAt =
  "'u \<Rightarrow> byte list \<Rightarrow> int64 \<Rightarrow> (byte list \<times> int64 \<times> error option) \<times> 'u"
type_synonym 'w WriteAt = "'w \<Rightarrow> byte list \<Rightarrow> int64 \<Rightarrow> (int64 \<times> error option) \<times> 'w"

text \<open>
  The documented contracts: \<open>Read\<close> and \<open>ReadAt\<close> return \<open>0 <= n <= len(p)\<close> and leave the
  slice at its length; \<open>ReadAt\<close> returns a non-nil error with \<open>n < len(p)\<close>. They are stated
  for the slices Go can build, of fewer than \<open>2^63\<close> bytes.
\<close>

definition Read_contract :: "'r Read \<Rightarrow> bool" where
  "Read_contract rd \<longleftrightarrow>
     (\<forall>r p. length p < 9223372036854775808 \<longrightarrow>
        (case rd r p of ((q, n, e), r') \<Rightarrow>
           length q = length p \<and> 0 \<le> sint n \<and> sint n \<le> int (length p)))"

text \<open>
  A reader makes progress when, handed a slice that is not empty, it never returns
  \<open>(0, nil)\<close>, the result the contract discourages.
\<close>

definition Read_progress :: "'r Read \<Rightarrow> bool" where
  "Read_progress rd \<longleftrightarrow>
     (\<forall>r p. p \<noteq> [] \<longrightarrow> length p < 9223372036854775808 \<longrightarrow>
        (case rd r p of ((q, n, e), r') \<Rightarrow> n \<noteq> 0 \<or> e \<noteq> None))"

definition ReadAt_count_contract :: "'u ReadAt \<Rightarrow> bool" where
  "ReadAt_count_contract ra \<longleftrightarrow>
     (\<forall>u p off. length p < 9223372036854775808 \<longrightarrow>
        (case ra u p off of ((q, n, e), u') \<Rightarrow>
           length q = length p \<and> 0 \<le> sint n \<and> sint n \<le> int (length p)))"

definition ReadAt_contract :: "'u ReadAt \<Rightarrow> bool" where
  "ReadAt_contract ra \<longleftrightarrow>
     ReadAt_count_contract ra \<and>
     (\<forall>u p off. length p < 9223372036854775808 \<longrightarrow>
        (case ra u p off of ((q, n, e), u') \<Rightarrow>
           sint n < int (length p) \<longrightarrow> e \<noteq> None))"

text \<open>A sequence of \<open>Read\<close> calls on one reader, with the slices the caller passes.\<close>

fun Read_calls ::
  "'r Read \<Rightarrow> 'r \<Rightarrow> byte list list \<Rightarrow> (byte list \<times> int64 \<times> error option) list \<times> 'r" where
  "Read_calls rd r [] = ([], r)"
| "Read_calls rd r (p # ps) =
     (case rd r p of
        (res, r') \<Rightarrow> (case Read_calls rd r' ps of (rs, r'') \<Rightarrow> (res # rs, r'')))"

section \<open>ReadAtLeast and ReadFull\<close>

text \<open>
  The loop \<open>for n < min && err == nil\<close>. The slice \<open>buf[n:]\<close> is the tail of the buffer, so
  what the reader stores there lands behind the first \<open>n\<close> bytes.
\<close>

fun ReadAtLeast_loop ::
  "nat \<Rightarrow> 'r Read \<Rightarrow> 'r \<Rightarrow> byte list \<Rightarrow> int64 \<Rightarrow> int64 \<Rightarrow> error option
     \<Rightarrow> (byte list \<times> int64 \<times> error option \<times> 'r) outcome" where
  "ReadAtLeast_loop 0 rd r buf min' n err =
     (if n <s min' \<and> err = None then NoReturn else Return (buf, n, err, r))"
| "ReadAtLeast_loop (Suc fuel) rd r buf min' n err =
     (if n <s min' \<and> err = None then
        (if n <s 0 \<or> len_int64 buf <s n then Panic
         else case rd r (drop (unat n) buf) of
           ((q, nn, err'), r') \<Rightarrow>
             ReadAtLeast_loop fuel rd r' (take (unat n) buf @ q) min' (n + nn) err')
      else Return (buf, n, err, r))"

definition ReadAtLeast ::
  "nat \<Rightarrow> 'r Read \<Rightarrow> 'r \<Rightarrow> byte list \<Rightarrow> int64
     \<Rightarrow> (byte list \<times> int64 \<times> error option \<times> 'r) outcome" where
  "ReadAtLeast fuel rd r buf min' =
     (if len_int64 buf <s min' then Return (buf, 0, Some ErrShortBuffer, r)
      else case ReadAtLeast_loop fuel rd r buf min' 0 None of
        Return (buf', n, err, r') \<Rightarrow>
          Return (buf', n,
            (if min' \<le>s n then None
             else if 0 <s n \<and> err = Some EOF then Some ErrUnexpectedEOF
             else err), r')
      | Panic \<Rightarrow> Panic
      | NoReturn \<Rightarrow> NoReturn)"

definition ReadFull ::
  "nat \<Rightarrow> 'r Read \<Rightarrow> 'r \<Rightarrow> byte list
     \<Rightarrow> (byte list \<times> int64 \<times> error option \<times> 'r) outcome" where
  "ReadFull fuel rd r buf = ReadAtLeast fuel rd r buf (len_int64 buf)"

section \<open>LimitedReader\<close>

record 'r LimitedReader =
  l_R :: 'r
  l_N :: int64

definition LimitReader :: "'r \<Rightarrow> int64 \<Rightarrow> 'r LimitedReader" where
  "LimitReader r n = \<lparr>l_R = r, l_N = n\<rparr>"

definition LimitedReader_Read :: "'r Read \<Rightarrow> 'r LimitedReader Read" where
  "LimitedReader_Read rd l p =
     (if l_N l \<le>s 0 then ((p, 0, Some EOF), l)
      else let p1 = (if l_N l <s len_int64 p then take (unat (l_N l)) p else p)
           in case rd (l_R l) p1 of
                ((q, n, err), r') \<Rightarrow>
                  ((q @ drop (length p1) p, n, err), \<lparr>l_R = r', l_N = l_N l - n\<rparr>))"

section \<open>Copy, CopyBuffer and CopyN\<close>

text \<open>One pass of the \<open>for\<close> loop of \<open>copyBuffer\<close> after the read: what the read error decides.\<close>

definition after_read ::
  "error option \<Rightarrow> int64 \<Rightarrow> 'd \<Rightarrow> 's \<Rightarrow> (int64 \<times> error option \<times> 'd \<times> 's) option" where
  "after_read er written d s =
     (case er of
        None \<Rightarrow> None
      | Some e \<Rightarrow> Some (written, (if e \<noteq> EOF then Some e else None), d, s))"

fun copyLoop ::
  "nat \<Rightarrow> 'd Write \<Rightarrow> 's Read \<Rightarrow> 'd \<Rightarrow> 's \<Rightarrow> byte list \<Rightarrow> int64
     \<Rightarrow> (int64 \<times> error option \<times> 'd \<times> 's) outcome" where
  "copyLoop 0 wr rd d s buf written = NoReturn"
| "copyLoop (Suc fuel) wr rd d s buf written =
     (case rd s buf of
        ((buf1, nr, er), s1) \<Rightarrow>
          if 0 <s nr then
            (if int (length buf1) < sint nr then Panic
             else case wr d (take (unat nr) buf1) of
               ((nw0, ew0), d1) \<Rightarrow>
                 let invalid = (nw0 <s 0 \<or> nr <s nw0);
                     nw = (if invalid then 0 else nw0);
                     ew = (if invalid \<and> ew0 = None then Some errInvalidWrite else ew0);
                     written1 = written + nw
                 in if ew \<noteq> None then Return (written1, ew, d1, s1)
                    else if nr \<noteq> nw then Return (written1, Some ErrShortWrite, d1, s1)
                    else (case after_read er written1 d1 s1 of
                            Some res \<Rightarrow> Return res
                          | None \<Rightarrow> copyLoop fuel wr rd d1 s1 buf1 written1))
          else (case after_read er written d s1 of
                  Some res \<Rightarrow> Return res
                | None \<Rightarrow> copyLoop fuel wr rd d s1 buf1 written))"

text \<open>
  The fast paths of \<open>copyBuffer\<close>: \<open>wt\<close> is the source's \<open>WriteTo\<close> method and \<open>rf\<close> the
  destination's \<open>ReadFrom\<close> method, \<open>None\<close> when the type assertion fails. \<open>asLimited\<close> is
  the assertion \<open>src.(*LimitedReader)\<close>: it gives \<open>l.N\<close> when the source is one.
\<close>

type_synonym ('d, 's) WriteTo =
  "'s \<Rightarrow> 'd Write \<Rightarrow> 'd \<Rightarrow> (int64 \<times> error option \<times> 'd \<times> 's) outcome"
type_synonym ('d, 's) ReadFrom =
  "'d \<Rightarrow> 's Read \<Rightarrow> 's \<Rightarrow> (int64 \<times> error option \<times> 'd \<times> 's) outcome"

text \<open>
  The documented contract of \<open>ReadFrom\<close>: it reads from the reader it is given and
  returns the number of bytes read. So what it did to the reader is some sequence of
  \<open>Read\<close> calls, and its count is the sum of theirs (in \<open>int64\<close>). It is asked only of
  calls with a reader that honours the \<open>Read\<close> contract.
\<close>

definition ReadFrom_contract :: "('d, 's) ReadFrom \<Rightarrow> bool" where
  "ReadFrom_contract ReadFrom \<longleftrightarrow>
     (\<forall>d rd s w e d' s'.
        Read_contract rd \<longrightarrow> ReadFrom d rd s = Return (w, e, d', s') \<longrightarrow>
          (\<exists>ps. list_all (\<lambda>p. length p < 9223372036854775808) ps
             \<and> snd (Read_calls rd s ps) = s'
             \<and> w = sum_list (map (\<lambda>(q, n, e). n) (fst (Read_calls rd s ps)))))"

definition copyBuffer_size :: "int64 option \<Rightarrow> int64" where
  "copyBuffer_size lN =
     (let size = 32 * 1024
      in case lN of
           None \<Rightarrow> size
         | Some N \<Rightarrow> if N <s size then (if N <s 1 then 1 else N) else size)"

definition copyBuffer ::
  "nat \<Rightarrow> ('d, 's) WriteTo option \<Rightarrow> ('d, 's) ReadFrom option \<Rightarrow> ('s \<Rightarrow> int64 option)
     \<Rightarrow> 'd Write \<Rightarrow> 's Read \<Rightarrow> 'd \<Rightarrow> 's \<Rightarrow> byte list option
     \<Rightarrow> (int64 \<times> error option \<times> 'd \<times> 's) outcome" where
  "copyBuffer fuel wt rf asLimited wr rd d s buf =
     (case wt of
        Some WriteTo \<Rightarrow> WriteTo s wr d
      | None \<Rightarrow>
          (case rf of
             Some ReadFrom \<Rightarrow> ReadFrom d rd s
           | None \<Rightarrow>
               let buf1 = (case buf of
                             None \<Rightarrow> replicate (unat (copyBuffer_size (asLimited s))) 0
                           | Some b \<Rightarrow> b)
               in copyLoop fuel wr rd d s buf1 0))"

definition Copy ::
  "nat \<Rightarrow> ('d, 's) WriteTo option \<Rightarrow> ('d, 's) ReadFrom option \<Rightarrow> ('s \<Rightarrow> int64 option)
     \<Rightarrow> 'd Write \<Rightarrow> 's Read \<Rightarrow> 'd \<Rightarrow> 's
     \<Rightarrow> (int64 \<times> error option \<times> 'd \<times> 's) outcome" where
  "Copy fuel wt rf asLimited wr rd d s = copyBuffer fuel wt rf asLimited wr rd d s None"

definition CopyBuffer ::
  "nat \<Rightarrow> ('d, 's) WriteTo option \<Rightarrow> ('d, 's) ReadFrom option \<Rightarrow> ('s \<Rightarrow> int64 option)
     \<Rightarrow> 'd Write \<Rightarrow> 's Read \<Rightarrow> 'd \<Rightarrow> 's \<Rightarrow> byte list option
     \<Rightarrow> (int64 \<times> error option \<times> 'd \<times> 's) outcome" where
  "CopyBuffer fuel wt rf asLimited wr rd d s buf =
     (if buf \<noteq> None \<and> buf = Some [] then Panic
      else copyBuffer fuel wt rf asLimited wr rd d s buf)"

text \<open>
  \<open>CopyN\<close> copies from \<open>LimitReader(src, n)\<close>, a \<open>*LimitedReader\<close>, which has no \<open>WriteTo\<close>
  method.
\<close>

definition CopyN ::
  "nat \<Rightarrow> ('d, 'r LimitedReader) ReadFrom option \<Rightarrow> 'd Write \<Rightarrow> 'r Read \<Rightarrow> 'd \<Rightarrow> 'r \<Rightarrow> int64
     \<Rightarrow> (int64 \<times> error option \<times> 'd \<times> 'r LimitedReader) outcome" where
  "CopyN fuel rf wr rd dst src n =
     (case Copy fuel None rf (\<lambda>l. Some (l_N l)) wr (LimitedReader_Read rd) dst
             (LimitReader src n) of
        Return (written, err, d, l) \<Rightarrow>
          if written = n then Return (n, None, d, l)
          else if written <s n \<and> err = None then Return (written, Some EOF, d, l)
          else Return (written, err, d, l)
      | Panic \<Rightarrow> Panic
      | NoReturn \<Rightarrow> NoReturn)"

section \<open>SectionReader\<close>

record 'u SectionReader =
  s_r :: 'u
  s_base :: int64
  s_off :: int64
  s_limit :: int64

definition NewSectionReader :: "'u \<Rightarrow> int64 \<Rightarrow> int64 \<Rightarrow> 'u SectionReader" where
  "NewSectionReader r off n =
     (let remaining = (if off \<le>s maxint64 - n then n + off else maxint64)
      in \<lparr>s_r = r, s_base = off, s_off = off, s_limit = remaining\<rparr>)"

text \<open>
  \<open>p[0:max]\<close> is evaluated only where \<open>len(p) > max\<close>, so it panics exactly when \<open>max\<close> is
  negative.
\<close>

definition SectionReader_Read ::
  "'u ReadAt \<Rightarrow> 'u SectionReader \<Rightarrow> byte list
     \<Rightarrow> ((byte list \<times> int64 \<times> error option) \<times> 'u SectionReader) outcome" where
  "SectionReader_Read ra s p =
     (if s_limit s \<le>s s_off s then Return ((p, 0, Some EOF), s)
      else let max' = s_limit s - s_off s;
               clip = (max' <s len_int64 p)
           in if clip \<and> max' <s 0 then Panic
              else let p1 = (if clip then take (unat max') p else p)
                   in case ra (s_r s) p1 (s_off s) of
                        ((q, n, err), u) \<Rightarrow>
                          Return ((q @ drop (length p1) p, n, err),
                                  s\<lparr>s_r := u, s_off := s_off s + n\<rparr>))"

definition SectionReader_Seek ::
  "'u SectionReader \<Rightarrow> int64 \<Rightarrow> int64 \<Rightarrow> (int64 \<times> error option) \<times> 'u SectionReader" where
  "SectionReader_Seek s offset whence =
     (if whence \<noteq> SeekStart \<and> whence \<noteq> SeekCurrent \<and> whence \<noteq> SeekEnd
      then ((0, Some errWhence), s)
      else let offset1 = (if whence = SeekStart then offset + s_base s
                          else if whence = SeekCurrent then offset + s_off s
                          else offset + s_limit s)
           in if offset1 <s s_base s then ((0, Some errOffset), s)
              else ((offset1 - s_base s, None), s\<lparr>s_off := offset1\<rparr>))"

definition SectionReader_ReadAt ::
  "'u ReadAt \<Rightarrow> 'u SectionReader \<Rightarrow> byte list \<Rightarrow> int64
     \<Rightarrow> ((byte list \<times> int64 \<times> error option) \<times> 'u SectionReader) outcome" where
  "SectionReader_ReadAt ra s p off =
     (if off <s 0 \<or> s_limit s - s_base s \<le>s off then Return ((p, 0, Some EOF), s)
      else let off1 = off + s_base s;
               max' = s_limit s - off1
           in if max' <s len_int64 p then
                (if max' <s 0 then Panic
                 else case ra (s_r s) (take (unat max') p) off1 of
                        ((q, n, err), u) \<Rightarrow>
                          Return ((q @ drop (unat max') p, n,
                                   (if err = None then Some EOF else err)),
                                  s\<lparr>s_r := u\<rparr>))
              else case ra (s_r s) p off1 of
                     (res, u) \<Rightarrow> Return (res, s\<lparr>s_r := u\<rparr>))"

definition Size :: "'u SectionReader \<Rightarrow> int64" where
  "Size s = s_limit s - s_base s"

text \<open>
  A caller's sequence of calls on one \<open>SectionReader\<close>; a panic ends it. \<open>logged\<close> puts a
  recorder in front of a \<open>ReaderAt\<close>: it notes the offset and the length of every
  positional read that reaches it.
\<close>

datatype SectionOp = OpRead "byte list" | OpSeek int64 int64 | OpReadAt "byte list" int64

fun SectionReader_run ::
  "'u ReadAt \<Rightarrow> 'u SectionReader \<Rightarrow> SectionOp list \<Rightarrow> 'u SectionReader outcome" where
  "SectionReader_run ra s [] = Return s"
| "SectionReader_run ra s (OpRead p # ops) =
     (case SectionReader_Read ra s p of
        Return (res, s') \<Rightarrow> SectionReader_run ra s' ops
      | Panic \<Rightarrow> Panic
      | NoReturn \<Rightarrow> NoReturn)"
| "SectionReader_run ra s (OpSeek offset whence # ops) =
     (case SectionReader_Seek s offset whence of
        (res, s') \<Rightarrow> SectionReader_run ra s' ops)"
| "SectionReader_run ra s (OpReadAt p off # ops) =
     (case SectionReader_ReadAt ra s p off of
        Return (res, s') \<Rightarrow> SectionReader_run ra s' ops
      | Panic \<Rightarrow> Panic
      | NoReturn \<Rightarrow> NoReturn)"

definition logged :: "'u ReadAt \<Rightarrow> ('u \<times> (int64 \<times> nat) list) ReadAt" where
  "logged ra ul p off =
     (case ra (fst ul) p off of
        (res, u') \<Rightarrow> (res, (u', snd ul @ [(off, length p)])))"

fun op_slice_ok :: "SectionOp \<Rightarrow> bool" where
  "op_slice_ok (OpRead p) = (length p < 9223372036854775808)"
| "op_slice_ok (OpSeek offset whence) = True"
| "op_slice_ok (OpReadAt p off) = (length p < 9223372036854775808)"

text \<open>
  A logged read \<open>(off, k)\<close> covers the bytes \<open>[off, off + k)\<close>; \<open>in_section lo hi\<close> says
  that they lie in \<open>[lo, hi)\<close>. \<open>SectionReader_inv\<close> is what every call keeps: base and
  limit fixed, the cursor not before the base, every logged read inside the section.
\<close>

definition in_section :: "int \<Rightarrow> int \<Rightarrow> int64 \<times> nat \<Rightarrow> bool" where
  "in_section lo hi c \<longleftrightarrow> lo \<le> sint (fst c) \<and> sint (fst c) + int (snd c) \<le> hi"

definition SectionReader_inv ::
  "int64 \<Rightarrow> int64 \<Rightarrow> ('u \<times> (int64 \<times> nat) list) SectionReader \<Rightarrow> bool" where
  "SectionReader_inv b lim s \<longleftrightarrow>
     s_base s = b \<and> s_limit s = lim \<and> sint b \<le> sint (s_off s)
     \<and> list_all (in_section (sint b) (sint lim)) (snd (s_r s))"

section \<open>OffsetWriter\<close>

record 'w OffsetWriter =
  o_w :: 'w
  o_base :: int64
  o_off :: int64

definition NewOffsetWriter :: "'w \<Rightarrow> int64 \<Rightarrow> 'w OffsetWriter" where
  "NewOffsetWriter w off = \<lparr>o_w = w, o_base = off, o_off = off\<rparr>"

definition OffsetWriter_Write :: "'w WriteAt \<Rightarrow> 'w OffsetWriter Write" where
  "OffsetWriter_Write wa ow p =
     (case wa (o_w ow) p (o_off ow) of
        ((n, err), w') \<Rightarrow> ((n, err), ow\<lparr>o_w := w', o_off := o_off ow + n\<rparr>))"

definition OffsetWriter_WriteAt :: "'w WriteAt \<Rightarrow> 'w OffsetWriter WriteAt" where
  "OffsetWriter_WriteAt wa ow p off =
     (case wa (o_w ow) p (off + o_base ow) of
        (res, w') \<Rightarrow> (res, ow\<lparr>o_w := w'\<rparr>))"

definition OffsetWriter_Seek ::
  "'w OffsetWriter \<Rightarrow> int64 \<Rightarrow> int64 \<Rightarrow> (int64 \<times> error option) \<times> 'w OffsetWriter" where
  "OffsetWriter_Seek ow offset whence =
     (if whence \<noteq> SeekStart \<and> whence \<noteq> SeekCurrent then ((0, Some errWhence), ow)
      else let offset1 = (if whence = SeekStart then offset + o_base ow
                          else offset + o_off ow)
           in if offset1 <s o_base ow then ((0, Some errOffset), ow)
              else ((offset1 - o_base ow, None), ow\<lparr>o_off := offset1\<rparr>))"

section \<open>TeeReader\<close>

record ('r, 'w) teeReader =
  t_r :: 'r
  t_w :: 'w

definition TeeReader :: "'r \<Rightarrow> 'w \<Rightarrow> ('r, 'w) teeReader" where
  "TeeReader r w = \<lparr>t_r = r, t_w = w\<rparr>"

text \<open>
  Inside the \<open>if\<close>, \<open>n, err := t.w.Write(p[:n])\<close> declares a new \<open>n\<close> and \<open>err\<close>: the
  \<open>return n, err\<close> there returns the results of the write.
\<close>

definition teeReader_Read ::
  "'r Read \<Rightarrow> 'w Write \<Rightarrow> ('r, 'w) teeReader \<Rightarrow> byte list
     \<Rightarrow> ((byte list \<times> int64 \<times> error option) \<times> ('r, 'w) teeReader) outcome" where
  "teeReader_Read rd wr t p =
     (case rd (t_r t) p of
        ((q, n, err), r') \<Rightarrow>
          if 0 <s n then
            (if int (length q) < sint n then Panic
             else case wr (t_w t) (take (unat n) q) of
                    ((n', err'), w') \<Rightarrow>
                      if err' \<noteq> None then Return ((q, n', err'), \<lparr>t_r = r', t_w = w'\<rparr>)
                      else Return ((q, n, err), \<lparr>t_r = r', t_w = w'\<rparr>))
          else Return ((q, n, err), \<lparr>t_r = r', t_w = t_w t\<rparr>))"

section \<open>Discard\<close>

text \<open>
  \<open>discard.ReadFrom\<close> reads into a buffer taken from \<open>blackHolePool\<close>, here \<open>bufp\<close>, until
  the reader returns an error.
\<close>

definition discard_Write :: "unit Write" where
  "discard_Write d p = ((len_int64 p, None), d)"

fun discard_ReadFrom_loop ::
  "nat \<Rightarrow> 's Read \<Rightarrow> 's \<Rightarrow> byte list \<Rightarrow> int64 \<Rightarrow> (int64 \<times> error option \<times> unit \<times> 's) outcome" where
  "discard_ReadFrom_loop 0 rd s bufp n = NoReturn"
| "discard_ReadFrom_loop (Suc fuel) rd s bufp n =
     (case rd s bufp of
        ((bufp1, readSize, err), s1) \<Rightarrow>
          let n1 = n + readSize
          in case err of
               Some e \<Rightarrow> Return (n1, (if e = EOF then None else Some e), (), s1)
             | None \<Rightarrow> discard_ReadFrom_loop fuel rd s1 bufp1 n1)"

definition discard_ReadFrom :: "nat \<Rightarrow> byte list \<Rightarrow> (unit, 's) ReadFrom" where
  "discard_ReadFrom fuel bufp d rd s = discard_ReadFrom_loop fuel rd s bufp 0"

section \<open>Readers and writers to run the functions on\<close>

text \<open>
  A source of zero bytes that fills every slice, a source at its end, a reader at any
  offset that fills every slice, a destination that keeps what it is given, one that
  reports one byte fewer than it was handed and no error, and one that takes a single byte
  and fails.
\<close>

definition zeroReader :: "unit Read" where
  "zeroReader r p = ((replicate (length p) 0, len_int64 p, None), r)"

definition emptyReader :: "unit Read" where
  "emptyReader r p = ((p, 0, Some EOF), r)"

definition zeroReaderAt :: "unit ReadAt" where
  "zeroReaderAt u p off = ((replicate (length p) 0, len_int64 p, None), u)"

definition bufferWriter :: "byte list Write" where
  "bufferWriter w p = ((len_int64 p, None), w @ p)"

definition oneShortWriter :: "unit Write" where
  "oneShortWriter w p = ((len_int64 p - 1, None), w)"

definition failingWriter :: "byte list Write" where
  "failingWriter w p = ((1, Some (OtherError ''disk full'')), w @ take 1 p)"

section \<open>Arithmetic of int64\<close>

lemma sint64_bounds:
  "- 9223372036854775808 \<le> sint (a::int64) \<and> sint a \<le> 9223372036854775807"
  using sint_ge [of a] sint_lt [of a] by simp

lemma sint64_add:
  "- 9223372036854775808 \<le> sint a + sint b \<Longrightarrow> sint a + sint b \<le> 9223372036854775807
   \<Longrightarrow> sint (a + b :: int64) = sint a + sint b"
  by (simp add: sint_word_ariths signed_take_bit_int_eq_self)

lemma sint64_sub:
  "- 9223372036854775808 \<le> sint a - sint b \<Longrightarrow> sint a - sint b \<le> 9223372036854775807
   \<Longrightarrow> sint (a - b :: int64) = sint a - sint b"
  by (simp add: sint_word_ariths signed_take_bit_int_eq_self)

lemma sint64_of_nat: "n < 9223372036854775808 \<Longrightarrow> sint (of_nat n :: int64) = int n"
  by (simp add: signed_of_nat signed_take_bit_int_eq_self)

lemma sint_len_int64: "length p < 9223372036854775808 \<Longrightarrow> sint (len_int64 p) = int (length p)"
  by (simp add: len_int64_def sint64_of_nat)

lemma sint_maxint64: "sint maxint64 = 9223372036854775807"
  by (simp add: maxint64_def)

lemma unat_sint64: "0 \<le> sint (a::int64) \<Longrightarrow> int (unat a) = sint a"
proof -
  assume nn: "0 \<le> sint a"
  have eq: "sint a = signed_take_bit 63 (uint a)"
    by (simp add: sint_uint)
  show ?thesis
  proof (cases "uint a < 9223372036854775808")
    case True
    have "- 9223372036854775808 \<le> uint a"
      using uint_ge_0 [of a] by linarith
    then have "- (2 ^ 63) \<le> uint a" by simp
    moreover from True have "uint a < 2 ^ 63" by simp
    ultimately have "signed_take_bit 63 (uint a) = uint a"
      by (rule signed_take_bit_int_eq_self)
    with eq show ?thesis by simp
  next
    case False
    then have "signed_take_bit 63 (uint a) \<le> uint a - 2 ^ Suc 63"
      by (intro signed_take_bit_int_less_eq) simp
    then have "signed_take_bit 63 (uint a) \<le> uint a - 18446744073709551616"
      by simp
    moreover have "uint a < 18446744073709551616"
      using uint_bounded [of a] by simp
    ultimately have "signed_take_bit 63 (uint a) < 0"
      by linarith
    with eq nn show ?thesis by linarith
  qed
qed

lemma unat_nat_sint64: "0 \<le> sint (a::int64) \<Longrightarrow> unat a = nat (sint a)"
  using unat_sint64 [of a] by (metis nat_int)

lemma sint64_pos:
  assumes "0 \<le> sint (n :: int64)" and "n \<noteq> 0"
  shows "0 < sint n"
proof (rule ccontr)
  assume "\<not> 0 < sint n"
  with assms(1) have "sint n = sint (0 :: int64)" by simp
  then have "n = 0" by (rule signed_word_eqI)
  with assms(2) show False by simp
qed

section \<open>Results of calls and the contracts\<close>

lemma read_result_cases:
  obtains q n err u where "(x :: ('a \<times> 'b \<times> 'c) \<times> 'u) = ((q, n, err), u)"
  by (cases x) auto

lemma write_result_cases:
  obtains n err w where "(x :: ('a \<times> 'b) \<times> 'w) = ((n, err), w)"
  by (cases x) auto

lemma Read_contractD:
  assumes "Read_contract rd" and "length p < 9223372036854775808"
    and "rd r p = ((q, n, e), r')"
  shows "length q = length p \<and> 0 \<le> sint n \<and> sint n \<le> int (length p)"
  using assms(1) [unfolded Read_contract_def, rule_format, OF assms(2), of r] assms(3)
  by simp

lemma ReadAt_count_contractD:
  assumes "ReadAt_count_contract ra" and "length p < 9223372036854775808"
    and "ra u p off = ((q, n, e), u')"
  shows "length q = length p \<and> 0 \<le> sint n \<and> sint n \<le> int (length p)"
  using assms(1) [unfolded ReadAt_count_contract_def, rule_format, OF assms(2), of u off] assms(3)
  by simp

lemma ReadAt_contractD:
  assumes "ReadAt_contract ra" and "length p < 9223372036854775808"
    and "ra u p off = ((q, n, e), u')" and "sint n < int (length p)"
  shows "e \<noteq> None"
proof -
  from assms(1) have "\<forall>u p off. length p < 9223372036854775808 \<longrightarrow>
        (case ra u p off of ((q, n, e), u') \<Rightarrow> sint n < int (length p) \<longrightarrow> e \<noteq> None)"
    by (simp add: ReadAt_contract_def)
  from this [rule_format, OF assms(2), of u off] assms(3,4) show ?thesis
    by simp
qed

lemma Read_progressD:
  assumes "Read_progress rd" and "p \<noteq> []" and "length p < 9223372036854775808"
    and "rd r p = ((q, n, e), r')"
  shows "n \<noteq> 0 \<or> e \<noteq> None"
  using assms(1) [unfolded Read_progress_def, rule_format, OF assms(2,3), of r] assms(4)
  by simp

lemma zeroReader_contract: "Read_contract zeroReader"
  by (simp add: Read_contract_def zeroReader_def sint_len_int64)

lemma zeroReader_progress: "Read_progress zeroReader"
  unfolding Read_progress_def
proof (intro allI impI)
  fix r :: unit and p :: "byte list"
  assume ne: "p \<noteq> []" and lp: "length p < 9223372036854775808"
  from lp have "sint (len_int64 p) = int (length p)"
    by (rule sint_len_int64)
  with ne have "len_int64 p \<noteq> 0" by auto
  then show "case zeroReader r p of ((q, n, e), r') \<Rightarrow> n \<noteq> 0 \<or> e \<noteq> None"
    by (simp add: zeroReader_def)
qed

lemma emptyReader_contract: "Read_contract emptyReader"
  by (simp add: Read_contract_def emptyReader_def)

lemma zeroReaderAt_contract: "ReadAt_contract zeroReaderAt"
  by (simp add: ReadAt_contract_def ReadAt_count_contract_def zeroReaderAt_def sint_len_int64)

section \<open>The copy loop and a destination that writes short\<close>

text \<open>
  C3. When the destination's \<open>Write\<close> always reports one byte fewer than the length it was
  handed and a nil error, and the first read of the source yields at least one byte (within
  the buffer), the copy loop returns after that read with \<open>ErrShortWrite\<close> and the count
  written so far, on any positive number of iterations allowed.
\<close>

theorem copyLoop_short_write:
  assumes "\<forall>d p. fst (wr d p) = (len_int64 p - 1, None)"
    and "rd s buf = ((buf1, nr, er), s1)"
    and "0 <s nr" and "sint nr \<le> int (length buf1)"
  shows "copyLoop (Suc fuel) wr rd d s buf written =
           Return (written + (nr - 1), Some ErrShortWrite,
                   snd (wr d (take (unat nr) buf1)), s1)"
proof -
  from assms(3) have pos: "0 < sint nr"
    by (simp add: word_sless_alt)
  then have un: "unat nr = nat (sint nr)"
    by (simp add: unat_nat_sint64)
  with assms(4) pos have "length (take (unat nr) buf1) = unat nr"
    by simp
  then have l: "len_int64 (take (unat nr) buf1) = nr"
    by (simp add: len_int64_def)
  obtain d1 where w: "wr d (take (unat nr) buf1) = ((nr - 1, None), d1)"
    using assms(1) l by (metis prod.collapse)
  have s1: "sint (nr - 1) = sint nr - 1"
    using pos sint64_bounds [of nr] sint64_sub [of nr 1] by simp
  then have valid: "\<not> (nr - 1 <s 0 \<or> nr <s nr - 1)"
    using pos by (simp add: word_sless_alt)
  have ne: "nr \<noteq> nr - 1"
    using s1 by auto
  show ?thesis
    using assms(2,3,4) w valid ne
    by (simp add: Let_def)
qed

theorem copyLoop_short_write_witness:
  "(\<forall>d p. fst (oneShortWriter d p) = (len_int64 p - 1, None))
   \<and> zeroReader () [5, 5, 5] = (([0, 0, 0], 3, None), ())
   \<and> copyLoop (Suc 0) oneShortWriter zeroReader () () [5, 5, 5] 0
       = Return (2, Some ErrShortWrite, (), ())"
  using copyLoop_short_write [of oneShortWriter zeroReader "()" "[5, 5, 5]" "[0, 0, 0]" 3 None "()" 0 "()" 0]
  by (simp add: oneShortWriter_def zeroReader_def len_int64_def word_sless_alt)

section \<open>LimitedReader.Read\<close>

lemma LimitedReader_Read_counts:
  assumes c: "Read_contract rd" and lp: "length p < 9223372036854775808"
    and r: "LimitedReader_Read rd l p = ((q, n, e), l')"
  shows "length q = length p \<and> 0 \<le> sint n \<and> sint n \<le> int (length p)
       \<and> sint n \<le> max 0 (sint (l_N l))
       \<and> sint (l_N l') = sint (l_N l) - sint n"
proof (cases "l_N l \<le>s 0")
  case True
  with r show ?thesis
    by (auto simp add: LimitedReader_Read_def word_sle_eq)
next
  case False
  then have pos: "0 < sint (l_N l)"
    by (simp add: word_sle_eq)
  define p1 where "p1 = (if l_N l <s len_int64 p then take (unat (l_N l)) p else p)"
  have un: "unat (l_N l) = nat (sint (l_N l))"
    using pos by (simp add: unat_nat_sint64)
  have l1: "length p1 \<le> length p" and l2: "int (length p1) \<le> sint (l_N l)"
    using lp pos un by (auto simp add: p1_def word_sless_alt sint_len_int64)
  obtain q1 r1 where rd: "rd (l_R l) p1 = ((q1, n, e), r1)"
    and q: "q = q1 @ drop (length p1) p" and l': "l' = \<lparr>l_R = r1, l_N = l_N l - n\<rparr>"
    using r False
    by (cases "rd (l_R l) p1" rule: read_result_cases)
       (auto simp add: LimitedReader_Read_def Let_def p1_def)
  from l1 lp have "length p1 < 9223372036854775808" by simp
  from Read_contractD [OF c this rd]
  have lq: "length q1 = length p1" and n0: "0 \<le> sint n" and nl: "sint n \<le> int (length p1)"
    by simp_all
  have "sint (l_N l - n) = sint (l_N l) - sint n"
    using n0 nl l2 sint64_bounds [of "l_N l"] by (simp add: sint64_sub)
  with q l' lq l1 l2 n0 nl pos show ?thesis
    by simp
qed

lemma LimitedReader_Read_contract:
  assumes "Read_contract rd"
  shows "Read_contract (LimitedReader_Read rd)"
  unfolding Read_contract_def
proof (intro allI impI)
  fix l :: "'a LimitedReader" and p :: "byte list"
  assume lp: "length p < 9223372036854775808"
  obtain q n e l' where r: "LimitedReader_Read rd l p = ((q, n, e), l')"
    by (rule read_result_cases)
  from LimitedReader_Read_counts [OF assms lp r] r
  show "case LimitedReader_Read rd l p of
          ((q, n, e), r') \<Rightarrow> length q = length p \<and> 0 \<le> sint n \<and> sint n \<le> int (length p)"
    by simp
qed

lemma LimitedReader_Read_progress:
  assumes "Read_progress rd"
  shows "Read_progress (LimitedReader_Read rd)"
  unfolding Read_progress_def
proof (intro allI impI)
  fix l :: "'a LimitedReader" and p :: "byte list"
  assume ne: "p \<noteq> []" and lp: "length p < 9223372036854775808"
  show "case LimitedReader_Read rd l p of ((q, n, e), r') \<Rightarrow> n \<noteq> 0 \<or> e \<noteq> None"
  proof (cases "l_N l \<le>s 0")
    case True
    then show ?thesis by (simp add: LimitedReader_Read_def)
  next
    case False
    then have pos: "0 < sint (l_N l)"
      by (simp add: word_sle_eq)
    define p1 where "p1 = (if l_N l <s len_int64 p then take (unat (l_N l)) p else p)"
    have "0 < unat (l_N l)"
      using pos unat_nat_sint64 [of "l_N l"] by simp
    then have ne1: "p1 \<noteq> []" and l1: "length p1 < 9223372036854775808"
      using ne lp by (auto simp add: p1_def)
    obtain q n e r1 where rd: "rd (l_R l) p1 = ((q, n, e), r1)"
      by (rule read_result_cases)
    from Read_progressD [OF assms ne1 l1 rd] False rd show ?thesis
      by (simp add: LimitedReader_Read_def Let_def p1_def [symmetric])
  qed
qed

lemma Read_calls_Cons:
  "rd r p = (res, r') \<Longrightarrow>
     Read_calls rd r (p # ps) = (res # fst (Read_calls rd r' ps), snd (Read_calls rd r' ps))"
  by (simp split: prod.splits)

lemma LimitedReader_calls_sum:
  assumes c: "Read_contract rd"
  shows "list_all (\<lambda>p. length p < 9223372036854775808) ps \<Longrightarrow> 0 \<le> sint (l_N l) \<Longrightarrow>
     0 \<le> sint (sum_list (map (\<lambda>(q, n, e). n) (fst (Read_calls (LimitedReader_Read rd) l ps))))
     \<and> 0 \<le> sint (l_N (snd (Read_calls (LimitedReader_Read rd) l ps)))
     \<and> sint (sum_list (map (\<lambda>(q, n, e). n) (fst (Read_calls (LimitedReader_Read rd) l ps))))
         + sint (l_N (snd (Read_calls (LimitedReader_Read rd) l ps))) = sint (l_N l)"
proof (induction ps arbitrary: l)
  case Nil
  then show ?case by simp
next
  case (Cons p ps)
  obtain q n e l1 where r: "LimitedReader_Read rd l p = ((q, n, e), l1)"
    by (rule read_result_cases)
  from Cons.prems have lp: "length p < 9223372036854775808"
    and rest: "list_all (\<lambda>p. length p < 9223372036854775808) ps"
    by simp_all
  from LimitedReader_Read_counts [OF c lp r] Cons.prems(2)
  have n0: "0 \<le> sint n" and nN: "sint n \<le> sint (l_N l)"
    and N1: "sint (l_N l1) = sint (l_N l) - sint n"
    by simp_all
  let ?rest = "sum_list (map (\<lambda>(q, n, e). n) (fst (Read_calls (LimitedReader_Read rd) l1 ps)))"
  let ?l' = "snd (Read_calls (LimitedReader_Read rd) l1 ps)"
  from Cons.IH [OF rest, of l1] N1 nN
  have s0: "0 \<le> sint ?rest" and N0: "0 \<le> sint (l_N ?l')"
    and eq: "sint ?rest + sint (l_N ?l') = sint (l_N l) - sint n"
    by simp_all
  have "sint (n + ?rest) = sint n + sint ?rest"
    using n0 s0 N0 eq sint64_bounds [of "l_N l"] by (simp add: sint64_add)
  with n0 s0 N0 eq show ?case
    unfolding Read_calls_Cons [where rd = "LimitedReader_Read rd" and r = l, OF r]
    by simp
qed

lemma LimitedReader_Read_spent:
  "l_N l \<le>s 0 \<Longrightarrow> LimitedReader_Read rd l p = ((p, 0, Some EOF), l)"
  by (simp add: LimitedReader_Read_def)

lemma LimitedReader_calls_spent:
  "l_N l \<le>s 0 \<Longrightarrow>
     Read_calls (LimitedReader_Read rd) l ps = (map (\<lambda>p. (p, 0, Some EOF)) ps, l)"
  by (induction ps) (simp_all add: LimitedReader_Read_spent)

lemma LimitedReader_calls_total:
  assumes "Read_contract rd" and "\<forall>p \<in> set ps. length p < 9223372036854775808"
  shows "(\<Sum>(q, n, e) \<leftarrow> fst (Read_calls (LimitedReader_Read rd) l ps). sint n) \<le> max 0 (sint (l_N l))
       \<and> (\<forall>(q, n, e) \<in> set (fst (Read_calls (LimitedReader_Read rd) l ps)). 0 \<le> sint n)"
  using assms(2)
proof (induction ps arbitrary: l)
  case Nil
  then show ?case by simp
next
  case (Cons p ps)
  obtain q n e l' where r: "LimitedReader_Read rd l p = ((q, n, e), l')"
    by (rule read_result_cases)
  from Cons.prems have lp: "length p < 9223372036854775808" by simp
  note k = LimitedReader_Read_counts [OF assms(1) lp r]
  from Cons.prems have "\<forall>p \<in> set ps. length p < 9223372036854775808" by simp
  from Cons.IH [OF this, of l'] k r show ?case
    by (auto split: prod.splits)
qed

text \<open>
  C5. Over a reader that honours the \<open>Read\<close> contract, the counts returned by any sequence
  of \<open>Read\<close> calls on a \<open>LimitedReader\<close> with budget \<open>N\<close> are not negative and sum to at
  most \<open>N\<close> (to 0 for a negative \<open>N\<close>); and from a budget \<open>N <= 0\<close> on, every \<open>Read\<close>
  returns \<open>(0, EOF)\<close> and leaves the slice, the budget and the underlying reader as they
  were, whatever the underlying \<open>Read\<close> is.
\<close>

theorem LimitedReader_budget:
  "(Read_contract rd \<and> (\<forall>p \<in> set ps. length p < 9223372036854775808) \<longrightarrow>
      (\<Sum>(q, n, e) \<leftarrow> fst (Read_calls (LimitedReader_Read rd) l ps). sint n)
        \<le> max 0 (sint (l_N l))
      \<and> (\<forall>(q, n, e) \<in> set (fst (Read_calls (LimitedReader_Read rd) l ps)). 0 \<le> sint n))
   \<and> (l_N l \<le>s 0 \<longrightarrow>
        Read_calls (LimitedReader_Read rd) l ps = (map (\<lambda>p. (p, 0, Some EOF)) ps, l))"
  using LimitedReader_calls_total [of rd ps l] LimitedReader_calls_spent [of l rd ps]
  by blast

theorem LimitedReader_budget_witness:
  "Read_contract zeroReader
   \<and> Read_calls (LimitedReader_Read zeroReader) (LimitReader () 3) [[1, 1], [2, 2], [3, 3]]
       = ([([0, 0], 2, None), ([0, 2], 1, None), ([3, 3], 0, Some EOF)], \<lparr>l_R = (), l_N = 0\<rparr>)
   \<and> (\<Sum>(q, n, e) \<leftarrow> fst (Read_calls (LimitedReader_Read zeroReader) (LimitReader () 3)
                                [[1, 1], [2, 2], [3, 3]]). sint n) \<le> 3"
  using LimitedReader_budget [of zeroReader "[[1, 1], [2, 2], [3, 3]]" "LimitReader () 3"]
    zeroReader_contract
  by (simp add: LimitedReader_Read_def LimitReader_def zeroReader_def len_int64_def
        word_sle_eq word_sless_alt)

section \<open>ReadFull\<close>

lemma ReadAtLeast_loop_inv:
  assumes c: "Read_contract rd"
  shows "length buf < 9223372036854775808 \<Longrightarrow> 0 \<le> sint n \<Longrightarrow> sint n \<le> int (length buf)
     \<Longrightarrow> sint min' \<le> int (length buf)
     \<Longrightarrow> ReadAtLeast_loop fuel rd r buf min' n err \<noteq> Panic
       \<and> (\<forall>buf' n' err' r'.
            ReadAtLeast_loop fuel rd r buf min' n err = Return (buf', n', err', r') \<longrightarrow>
              length buf' = length buf \<and> 0 \<le> sint n' \<and> sint n' \<le> int (length buf)
              \<and> \<not> (n' <s min' \<and> err' = None))"
proof (induction fuel arbitrary: r buf n err)
  case 0
  then show ?case by simp
next
  case (Suc fuel)
  show ?case
  proof (cases "n <s min' \<and> err = None")
    case False
    with Suc.prems show ?thesis by auto
  next
    case True
    have un: "unat n = nat (sint n)"
      using Suc.prems(2) by (rule unat_nat_sint64)
    have nopanic: "\<not> (n <s 0 \<or> len_int64 buf <s n)"
      using Suc.prems by (simp add: word_sless_alt sint_len_int64)
    obtain q nn err1 r1 where rd: "rd r (drop (unat n) buf) = ((q, nn, err1), r1)"
      by (rule read_result_cases)
    have "length (drop (unat n) buf) < 9223372036854775808"
      using Suc.prems(1) by simp
    from Read_contractD [OF c this rd]
    have lq: "length q = length buf - nat (sint n)" and n0: "0 \<le> sint nn"
      and nl: "sint nn \<le> int (length buf - nat (sint n))"
      by (simp_all add: un)
    have sum: "sint (n + nn) = sint n + sint nn"
      using Suc.prems(1,2,3) n0 nl by (simp add: sint64_add)
    have lb: "length (take (unat n) buf @ q) = length buf"
      using Suc.prems(2,3) lq un by simp
    have step: "ReadAtLeast_loop (Suc fuel) rd r buf min' n err =
        ReadAtLeast_loop fuel rd r1 (take (unat n) buf @ q) min' (n + nn) err1"
      using True nopanic rd by simp
    have "ReadAtLeast_loop fuel rd r1 (take (unat n) buf @ q) min' (n + nn) err1 \<noteq> Panic
       \<and> (\<forall>buf' n' err' r'.
            ReadAtLeast_loop fuel rd r1 (take (unat n) buf @ q) min' (n + nn) err1
              = Return (buf', n', err', r') \<longrightarrow>
              length buf' = length (take (unat n) buf @ q) \<and> 0 \<le> sint n'
              \<and> sint n' \<le> int (length (take (unat n) buf @ q))
              \<and> \<not> (n' <s min' \<and> err' = None))"
      using Suc.prems sum n0 nl lb by (intro Suc.IH) simp_all
    with step lb show ?thesis by simp
  qed
qed

lemma ReadAtLeast_loop_error:
  "err \<noteq> None \<Longrightarrow> ReadAtLeast_loop fuel rd r buf min' n err = Return (buf, n, err, r)"
  by (cases fuel) auto

lemma ReadAtLeast_loop_returns:
  assumes c: "Read_contract rd" and g: "Read_progress rd"
  shows "length buf < 9223372036854775808 \<Longrightarrow> 0 \<le> sint n \<Longrightarrow> sint n \<le> int (length buf)
     \<Longrightarrow> sint min' \<le> int (length buf) \<Longrightarrow> length buf - nat (sint n) \<le> fuel
     \<Longrightarrow> ReadAtLeast_loop fuel rd r buf min' n err \<noteq> NoReturn"
proof (induction fuel arbitrary: r buf n err)
  case 0
  then have "\<not> n <s min'"
    by (simp add: word_sless_alt)
  then show ?case by simp
next
  case (Suc fuel)
  show ?case
  proof (cases "n <s min' \<and> err = None")
    case False
    then show ?thesis by auto
  next
    case True
    then have lt: "sint n < int (length buf)"
      using Suc.prems(4) by (simp add: word_sless_alt)
    have un: "unat n = nat (sint n)"
      using Suc.prems(2) by (rule unat_nat_sint64)
    have nopanic: "\<not> (n <s 0 \<or> len_int64 buf <s n)"
      using Suc.prems by (simp add: word_sless_alt sint_len_int64)
    obtain q nn err1 r1 where rd: "rd r (drop (unat n) buf) = ((q, nn, err1), r1)"
      by (rule read_result_cases)
    have ne: "drop (unat n) buf \<noteq> []"
      using lt un Suc.prems(2) by simp
    have dl: "length (drop (unat n) buf) < 9223372036854775808"
      using Suc.prems(1) by simp
    from Read_contractD [OF c dl rd]
    have lq: "length q = length buf - nat (sint n)" and n0: "0 \<le> sint nn"
      and nl: "sint nn \<le> int (length buf - nat (sint n))"
      by (simp_all add: un)
    have sum: "sint (n + nn) = sint n + sint nn"
      using Suc.prems(1,2,3) n0 nl by (simp add: sint64_add)
    have lb: "length (take (unat n) buf @ q) = length buf"
      using Suc.prems(2,3) lq un by simp
    have step: "ReadAtLeast_loop (Suc fuel) rd r buf min' n err =
        ReadAtLeast_loop fuel rd r1 (take (unat n) buf @ q) min' (n + nn) err1"
      using True nopanic rd by simp
    show ?thesis
    proof (cases "err1 = None")
      case False
      then show ?thesis
        unfolding step by (simp add: ReadAtLeast_loop_error)
    next
      case True
      with Read_progressD [OF g ne dl rd] have "nn \<noteq> 0" by simp
      with n0 have "0 < sint nn" by (rule sint64_pos)
      then have "length (take (unat n) buf @ q) - nat (sint (n + nn)) \<le> fuel"
        using Suc.prems(2,5) lb sum by simp
      then have "ReadAtLeast_loop fuel rd r1 (take (unat n) buf @ q) min' (n + nn) err1
          \<noteq> NoReturn"
        using Suc.prems sum n0 nl lb by (intro Suc.IH) simp_all
      then show ?thesis
        unfolding step .
    qed
  qed
qed

lemma ReadFull_returns:
  assumes "Read_contract rd" and "Read_progress rd" and "length buf < 9223372036854775808"
    and "length buf \<le> fuel"
  shows "ReadFull fuel rd r buf \<noteq> NoReturn"
proof -
  have sl: "sint (len_int64 buf) = int (length buf)"
    using assms(3) by (rule sint_len_int64)
  have "ReadAtLeast_loop fuel rd r buf (len_int64 buf) 0 None \<noteq> NoReturn"
    using assms(3,4) sl by (intro ReadAtLeast_loop_returns [OF assms(1,2)]) simp_all
  then show ?thesis
    by (simp add: ReadFull_def ReadAtLeast_def split: outcome.splits)
qed

text \<open>
  C4. Over a reader that honours the \<open>Read\<close> contract, \<open>ReadFull\<close> does not panic, and
  whenever it returns, it returns \<open>n = len(buf)\<close> exactly when it returns a nil error. It
  does return when the reader makes progress: \<open>len(buf)\<close> iterations of the loop are
  enough.
\<close>

theorem ReadFull_full_iff_nil:
  assumes "Read_contract rd" and "length buf < 9223372036854775808"
  shows "ReadFull fuel rd r buf \<noteq> Panic
       \<and> (\<forall>buf' n err r'.
            ReadFull fuel rd r buf = Return (buf', n, err, r') \<longrightarrow>
              (n = len_int64 buf \<longleftrightarrow> err = None))
       \<and> (Read_progress rd \<and> length buf \<le> fuel \<longrightarrow>
            (\<exists>buf' n err r'. ReadFull fuel rd r buf = Return (buf', n, err, r')))"
proof -
  have sl: "sint (len_int64 buf) = int (length buf)"
    using assms(2) by (rule sint_len_int64)
  note inv = ReadAtLeast_loop_inv [OF assms(1) assms(2), of 0 "len_int64 buf" fuel r None]
  have eqI: "n = len_int64 buf" if "sint n \<le> int (length buf)" and "len_int64 buf \<le>s n" for n
  proof -
    from that sl have "sint n = sint (len_int64 buf)"
      by (simp add: word_sle_eq)
    then show ?thesis by (rule signed_word_eqI)
  qed
  have main: "ReadFull fuel rd r buf \<noteq> Panic
       \<and> (\<forall>buf' n err r'.
            ReadFull fuel rd r buf = Return (buf', n, err, r') \<longrightarrow>
              (n = len_int64 buf \<longleftrightarrow> err = None))"
  proof (cases "ReadAtLeast_loop fuel rd r buf (len_int64 buf) 0 None")
    case (Return res)
    obtain buf' n err r' where res: "res = (buf', n, err, r')"
      by (cases res)
    from inv Return res sl
    have k: "sint n \<le> int (length buf)" "\<not> (n <s len_int64 buf \<and> err = None)"
      by simp_all
    show ?thesis
      using Return res k eqI [of n]
      by (auto simp add: ReadFull_def ReadAtLeast_def word_sless_alt word_sle_eq)
  next
    case Panic
    with inv sl show ?thesis by simp
  next
    case NoReturn
    then show ?thesis
      by (simp add: ReadFull_def ReadAtLeast_def)
  qed
  have returns: "\<exists>buf' n err r'. ReadFull fuel rd r buf = Return (buf', n, err, r')"
    if "Read_progress rd" and "length buf \<le> fuel"
  proof (cases "ReadFull fuel rd r buf")
    case (Return res)
    then show ?thesis by (cases res) simp
  next
    case Panic
    with main show ?thesis by simp
  next
    case NoReturn
    with ReadFull_returns [OF assms(1) that(1) assms(2) that(2), of r] show ?thesis by simp
  qed
  from main returns show ?thesis by blast
qed

theorem ReadFull_full_iff_nil_witness:
  "ReadFull 3 (LimitedReader_Read zeroReader) (LimitReader () 2) [1, 1, 1]
     = Return ([0, 0, 1], 2, Some ErrUnexpectedEOF, \<lparr>l_R = (), l_N = 0\<rparr>)
   \<and> 2 \<noteq> len_int64 [1, 1, 1]
   \<and> ReadFull 3 zeroReader () [1, 1, 1] = Return ([0, 0, 0], len_int64 [1, 1, 1], None, ())"
  using ReadFull_full_iff_nil
    [of "LimitedReader_Read zeroReader" "[1, 1, 1]" 3 "LimitReader () 2",
     OF LimitedReader_Read_contract [OF zeroReader_contract]]
    ReadFull_full_iff_nil [of zeroReader "[1, 1, 1]" 3 "()", OF zeroReader_contract]
    zeroReader_progress
  by (simp add: ReadFull_def ReadAtLeast_def LimitedReader_Read_def LimitReader_def
        zeroReader_def len_int64_def word_sle_eq word_sless_alt numeral_3_eq_3)

section \<open>CopyN\<close>

lemma copyBuffer_size_bounds:
  "1 \<le> sint (copyBuffer_size lN) \<and> sint (copyBuffer_size lN) \<le> 32768"
  by (cases lN) (auto simp add: copyBuffer_size_def Let_def word_sless_alt)

lemma copyBuffer_size_length:
  "length (replicate (unat (copyBuffer_size lN)) (0 :: byte)) < 9223372036854775808"
proof -
  have "sint (copyBuffer_size lN) < 9223372036854775808"
    using copyBuffer_size_bounds [of lN] by linarith
  then have "nat (sint (copyBuffer_size lN)) < 9223372036854775808"
    by linarith
  then show ?thesis
    using copyBuffer_size_bounds [of lN] unat_nat_sint64 [of "copyBuffer_size lN"]
    by simp
qed

lemma copyLoop_limited_inv:
  assumes c: "Read_contract rd" and B: "B \<le> 9223372036854775807"
  shows "length buf < 9223372036854775808 \<Longrightarrow> 0 \<le> sint (l_N l) \<Longrightarrow> 0 \<le> sint written
     \<Longrightarrow> sint written + sint (l_N l) \<le> B
     \<Longrightarrow> copyLoop fuel wr (LimitedReader_Read rd) d l buf written \<noteq> Panic
       \<and> (\<forall>w' err d' l'.
            copyLoop fuel wr (LimitedReader_Read rd) d l buf written = Return (w', err, d', l')
            \<longrightarrow> 0 \<le> sint w' \<and> sint w' + sint (l_N l') \<le> B \<and> 0 \<le> sint (l_N l'))"
proof (induction fuel arbitrary: d l buf written)
  case 0
  then show ?case by simp
next
  case (Suc fuel)
  obtain buf1 nr er l1 where rd: "LimitedReader_Read rd l buf = ((buf1, nr, er), l1)"
    by (rule read_result_cases)
  from LimitedReader_Read_counts [OF c Suc.prems(1) rd]
  have lb: "length buf1 = length buf" and n0: "0 \<le> sint nr"
    and nl: "sint nr \<le> int (length buf)" and nN: "sint nr \<le> max 0 (sint (l_N l))"
    and N1: "sint (l_N l1) = sint (l_N l) - sint nr"
    by simp_all
  from nN Suc.prems(2) have N1pos: "0 \<le> sint (l_N l1)"
    using N1 by simp
  have len1: "length buf1 < 9223372036854775808"
    using lb Suc.prems(1) by simp
  show ?case
  proof (cases "0 <s nr")
    case False
    have IH: "copyLoop fuel wr (LimitedReader_Read rd) d l1 buf1 written \<noteq> Panic
       \<and> (\<forall>w' err d' l'.
            copyLoop fuel wr (LimitedReader_Read rd) d l1 buf1 written = Return (w', err, d', l')
            \<longrightarrow> 0 \<le> sint w' \<and> sint w' + sint (l_N l') \<le> B \<and> 0 \<le> sint (l_N l'))"
      using len1 N1pos Suc.prems(3,4) N1 n0 by (intro Suc.IH) simp_all
    have step: "copyLoop (Suc fuel) wr (LimitedReader_Read rd) d l buf written =
        (case after_read er written d l1 of
           Some res \<Rightarrow> Return res
         | None \<Rightarrow> copyLoop fuel wr (LimitedReader_Read rd) d l1 buf1 written)"
      using False rd by simp
    show ?thesis
      using IH N1pos Suc.prems(3,4) N1 n0
      unfolding step
      by (auto simp add: after_read_def split: option.splits)
  next
    case True
    obtain nw0 ew0 d1 where w: "wr d (take (unat nr) buf1) = ((nw0, ew0), d1)"
      by (rule write_result_cases)
    define invalid where "invalid = (nw0 <s 0 \<or> nr <s nw0)"
    define nw where "nw = (if invalid then 0 else nw0)"
    define ew where "ew = (if invalid \<and> ew0 = None then Some errInvalidWrite else ew0)"
    have nw0: "0 \<le> sint nw" and nwl: "sint nw \<le> sint nr"
      using n0 by (auto simp add: nw_def invalid_def word_sless_alt)
    have sum: "sint (written + nw) = sint written + sint nw"
      using Suc.prems(2,3,4) nw0 nwl nN B by (simp add: sint64_add)
    have IH: "copyLoop fuel wr (LimitedReader_Read rd) d1 l1 buf1 (written + nw) \<noteq> Panic
       \<and> (\<forall>w' err d' l'.
            copyLoop fuel wr (LimitedReader_Read rd) d1 l1 buf1 (written + nw)
              = Return (w', err, d', l')
            \<longrightarrow> 0 \<le> sint w' \<and> sint w' + sint (l_N l') \<le> B \<and> 0 \<le> sint (l_N l'))"
      using len1 N1pos Suc.prems(3,4) N1 nw0 nwl sum by (intro Suc.IH) simp_all
    have nopanic: "\<not> int (length buf1) < sint nr"
      using lb nl by simp
    have step: "copyLoop (Suc fuel) wr (LimitedReader_Read rd) d l buf written =
        (if ew \<noteq> None then Return (written + nw, ew, d1, l1)
         else if nr \<noteq> nw then Return (written + nw, Some ErrShortWrite, d1, l1)
         else (case after_read er (written + nw) d1 l1 of
                 Some res \<Rightarrow> Return res
               | None \<Rightarrow> copyLoop fuel wr (LimitedReader_Read rd) d1 l1 buf1 (written + nw)))"
      using True rd w nopanic
      by (simp add: Let_def nw_def ew_def invalid_def cong: option.case_cong)
    show ?thesis
      using IH N1pos Suc.prems(3,4) N1 nw0 nwl sum
      unfolding step
      by (auto simp add: after_read_def split: option.splits)
  qed
qed

lemma copyLoop_limited_returns:
  assumes c: "Read_contract rd" and g: "Read_progress rd"
  shows "buf \<noteq> [] \<Longrightarrow> length buf < 9223372036854775808 \<Longrightarrow> 0 \<le> sint (l_N l)
     \<Longrightarrow> nat (sint (l_N l)) < fuel
     \<Longrightarrow> copyLoop fuel wr (LimitedReader_Read rd) d l buf written \<noteq> NoReturn"
proof (induction fuel arbitrary: d l buf written)
  case 0
  then show ?case by simp
next
  case (Suc fuel)
  obtain buf1 nr er l1 where rd: "LimitedReader_Read rd l buf = ((buf1, nr, er), l1)"
    by (rule read_result_cases)
  from LimitedReader_Read_counts [OF c Suc.prems(2) rd]
  have lb: "length buf1 = length buf" and n0: "0 \<le> sint nr"
    and nl: "sint nr \<le> int (length buf)" and nN: "sint nr \<le> max 0 (sint (l_N l))"
    and N1: "sint (l_N l1) = sint (l_N l) - sint nr"
    by simp_all
  from Read_progressD [OF LimitedReader_Read_progress [OF g] Suc.prems(1,2) rd]
  have pr: "nr \<noteq> 0 \<or> er \<noteq> None" .
  show ?case
  proof (cases "0 <s nr")
    case False
    then have "nr = 0"
      using n0 sint64_pos [of nr] by (auto simp add: word_sless_alt)
    with pr obtain e where "er = Some e" by auto
    with False rd show ?thesis
      by (simp add: after_read_def)
  next
    case True
    then have pos: "0 < sint nr"
      by (simp add: word_sless_alt)
    obtain nw0 ew0 d1 where w: "wr d (take (unat nr) buf1) = ((nw0, ew0), d1)"
      by (rule write_result_cases)
    have rec: "copyLoop fuel wr (LimitedReader_Read rd) d1 l1 buf1 w1 \<noteq> NoReturn" for w1
      using Suc.prems lb N1 nN pos by (intro Suc.IH) auto
    have nopanic: "\<not> int (length buf1) < sint nr"
      using lb nl by simp
    show ?thesis
      using True rd w nopanic rec
      by (auto simp add: Let_def after_read_def split: option.splits)
  qed
qed

lemma CopyN_returns:
  assumes "Read_contract rd" and "Read_progress rd" and "0 \<le>s n" and "nat (sint n) < fuel"
  shows "CopyN fuel None wr rd dst src n \<noteq> NoReturn"
proof -
  let ?buf = "replicate (unat (copyBuffer_size (Some n))) (0 :: byte)"
  from assms(3) have n0: "0 \<le> sint n"
    by (simp add: word_sle_eq)
  have "0 < unat (copyBuffer_size (Some n))"
    using copyBuffer_size_bounds [of "Some n"] unat_nat_sint64 [of "copyBuffer_size (Some n)"]
    by simp
  then have ne: "?buf \<noteq> []" by simp
  have "copyLoop fuel wr (LimitedReader_Read rd) dst (LimitReader src n) ?buf 0 \<noteq> NoReturn"
    using ne copyBuffer_size_length [of "Some n"] n0 assms(4)
    by (intro copyLoop_limited_returns [OF assms(1,2)]) (simp_all add: LimitReader_def)
  then show ?thesis
    by (simp add: CopyN_def Copy_def copyBuffer_def LimitReader_def split: outcome.splits)
qed

lemma discard_ReadFrom_loop_calls:
  assumes c: "Read_contract rd"
  shows "length bufp < 9223372036854775808 \<Longrightarrow>
     discard_ReadFrom_loop fuel rd s bufp n = Return (w, e, d', s') \<Longrightarrow>
     \<exists>ps. list_all (\<lambda>p. length p < 9223372036854775808) ps
        \<and> snd (Read_calls rd s ps) = s'
        \<and> w = n + sum_list (map (\<lambda>(q, n, e). n) (fst (Read_calls rd s ps)))"
proof (induction fuel arbitrary: s bufp n)
  case 0
  then show ?case by simp
next
  case (Suc fuel)
  obtain bufp1 readSize err s1 where rd: "rd s bufp = ((bufp1, readSize, err), s1)"
    by (rule read_result_cases)
  from Read_contractD [OF c Suc.prems(1) rd] Suc.prems(1)
  have l1: "length bufp1 < 9223372036854775808" by simp
  show ?case
  proof (cases err)
    case (Some e1)
    with Suc.prems(2) rd have "w = n + readSize" and "s' = s1"
      by (simp_all add: Let_def)
    with Suc.prems(1) show ?thesis
      by (intro exI [of _ "[bufp]"])
         (simp del: Read_calls.simps(2) add: Read_calls_Cons [where rd = rd and r = s, OF rd])
  next
    case None
    with Suc.prems(2) rd
    have "discard_ReadFrom_loop fuel rd s1 bufp1 (n + readSize) = Return (w, e, d', s')"
      by (simp add: Let_def)
    from Suc.IH [OF l1 this] obtain ps where
      ps: "list_all (\<lambda>p. length p < 9223372036854775808) ps"
        "snd (Read_calls rd s1 ps) = s'"
        "w = n + readSize + sum_list (map (\<lambda>(q, n, e). n) (fst (Read_calls rd s1 ps)))"
      by blast
    with Suc.prems(1) show ?thesis
      by (intro exI [of _ "bufp # ps"])
         (simp del: Read_calls.simps(2)
            add: add.assoc Read_calls_Cons [where rd = rd and r = s, OF rd])
  qed
qed

lemma discard_ReadFrom_contract:
  "length bufp < 9223372036854775808 \<Longrightarrow> ReadFrom_contract (discard_ReadFrom fuel bufp)"
  unfolding ReadFrom_contract_def discard_ReadFrom_def
  using discard_ReadFrom_loop_calls [where n = 0] by fastforce

lemma Copy_limited_written:
  assumes c: "Read_contract rd" and n0: "0 \<le> sint n"
    and rfc: "case rf of None \<Rightarrow> True | Some ReadFrom \<Rightarrow> ReadFrom_contract ReadFrom"
    and r: "Copy fuel None rf (\<lambda>l. Some (l_N l)) wr (LimitedReader_Read rd) dst
              (LimitReader src n) = Return (w', e', d', l')"
  shows "sint w' \<le> sint n"
proof (cases rf)
  case None
  let ?buf = "replicate (unat (copyBuffer_size (Some n))) (0 :: byte)"
  let ?loop = "copyLoop fuel wr (LimitedReader_Read rd) dst (LimitReader src n) ?buf 0"
  have "?loop \<noteq> Panic
       \<and> (\<forall>w' err d' l'. ?loop = Return (w', err, d', l')
            \<longrightarrow> 0 \<le> sint w' \<and> sint w' + sint (l_N l') \<le> sint n \<and> 0 \<le> sint (l_N l'))"
    using n0 sint64_bounds [of n] copyBuffer_size_length [of "Some n"]
    by (intro copyLoop_limited_inv [OF c]) (simp_all add: LimitReader_def)
  moreover from r None have "?loop = Return (w', e', d', l')"
    by (simp add: Copy_def copyBuffer_def LimitReader_def)
  ultimately show ?thesis by fastforce
next
  case (Some g)
  with rfc have gc: "ReadFrom_contract g" by simp
  from r Some have g: "g dst (LimitedReader_Read rd) (LimitReader src n) = Return (w', e', d', l')"
    by (simp add: Copy_def copyBuffer_def)
  from gc [unfolded ReadFrom_contract_def, rule_format, OF LimitedReader_Read_contract [OF c] g]
  obtain ps where ps: "list_all (\<lambda>p. length p < 9223372036854775808) ps"
    and l': "snd (Read_calls (LimitedReader_Read rd) (LimitReader src n) ps) = l'"
    and w': "w' = sum_list (map (\<lambda>(q, n, e). n)
                (fst (Read_calls (LimitedReader_Read rd) (LimitReader src n) ps)))"
    by blast
  from LimitedReader_calls_sum [OF c ps, of "LimitReader src n"] n0 l' w'
  show ?thesis
    by (simp add: LimitReader_def)
qed

text \<open>
  C1. For a source whose \<open>Read\<close> honours its contract, \<open>n >= 0\<close>, and a destination with
  any \<open>Write\<close> that either has no \<open>ReadFrom\<close> method (the copy is then the loop of
  \<open>copyBuffer\<close>) or has one that honours its contract: whenever \<open>CopyN\<close> returns, it returns
  \<open>written = n\<close> exactly when it returns a nil error. Through the loop it does not panic,
  and it returns when the source makes progress: \<open>n + 1\<close> iterations are enough.
\<close>

theorem CopyN_written_iff_nil:
  assumes "Read_contract rd" and "0 \<le>s n"
    and "case rf of None \<Rightarrow> True | Some ReadFrom \<Rightarrow> ReadFrom_contract ReadFrom"
  shows "(\<forall>written err d l.
            CopyN fuel rf wr rd dst src n = Return (written, err, d, l) \<longrightarrow>
              (written = n \<longleftrightarrow> err = None))
       \<and> (rf = None \<longrightarrow> CopyN fuel rf wr rd dst src n \<noteq> Panic)
       \<and> (rf = None \<and> Read_progress rd \<and> nat (sint n) < fuel \<longrightarrow>
            (\<exists>written err d l. CopyN fuel rf wr rd dst src n = Return (written, err, d, l)))"
proof -
  let ?copy = "Copy fuel None rf (\<lambda>l. Some (l_N l)) wr (LimitedReader_Read rd) dst
                 (LimitReader src n)"
  from assms(2) have n0: "0 \<le> sint n"
    by (simp add: word_sle_eq)
  have first: "written = n \<longleftrightarrow> err = None"
    if ret: "CopyN fuel rf wr rd dst src n = Return (written, err, d, l)" for written err d l
  proof (cases ?copy)
    case (Return res)
    obtain w' e' d' l' where res: "res = (w', e', d', l')"
      by (cases res)
    from Copy_limited_written [OF assms(1) n0 assms(3)] Return res
    have le: "sint w' \<le> sint n" by simp
    have lt: "w' <s n" if "w' \<noteq> n"
    proof -
      from that have "sint w' \<noteq> sint n"
        using signed_word_eqI [of w' n] by blast
      with le show ?thesis
        by (simp add: word_sless_alt)
    qed
    from ret Return res lt show ?thesis
      by (auto simp add: CopyN_def split: if_splits)
  next
    case Panic
    with ret show ?thesis by (simp add: CopyN_def)
  next
    case NoReturn
    with ret show ?thesis by (simp add: CopyN_def)
  qed
  have second: "CopyN fuel rf wr rd dst src n \<noteq> Panic" if "rf = None"
  proof -
    let ?buf = "replicate (unat (copyBuffer_size (Some n))) (0 :: byte)"
    let ?loop = "copyLoop fuel wr (LimitedReader_Read rd) dst (LimitReader src n) ?buf 0"
    have "?loop \<noteq> Panic
       \<and> (\<forall>w' err d' l'. ?loop = Return (w', err, d', l')
            \<longrightarrow> 0 \<le> sint w' \<and> sint w' + sint (l_N l') \<le> sint n \<and> 0 \<le> sint (l_N l'))"
      using n0 sint64_bounds [of n] copyBuffer_size_length [of "Some n"]
      by (intro copyLoop_limited_inv [OF assms(1)]) (simp_all add: LimitReader_def)
    then have "?loop \<noteq> Panic" by simp
    with that show ?thesis
      by (auto simp add: CopyN_def Copy_def copyBuffer_def LimitReader_def
            split: outcome.splits if_splits)
  qed
  have third: "\<exists>written err d l. CopyN fuel rf wr rd dst src n = Return (written, err, d, l)"
    if "rf = None" and "Read_progress rd" and "nat (sint n) < fuel"
  proof (cases "CopyN fuel rf wr rd dst src n")
    case (Return res)
    then show ?thesis by (cases res) simp
  next
    case Panic
    with second [OF that(1)] show ?thesis by simp
  next
    case NoReturn
    with CopyN_returns [OF assms(1) that(2) assms(2) that(3), of wr dst src] that(1)
    show ?thesis by simp
  qed
  from first second third show ?thesis by blast
qed

theorem CopyN_written_iff_nil_witness:
  "CopyN 4 None bufferWriter zeroReader [] () 3
     = Return (3, None, [0, 0, 0], \<lparr>l_R = (), l_N = 0\<rparr>)
   \<and> CopyN 3 (Some (discard_ReadFrom 5 (replicate 8 0))) discard_Write zeroReader () () 3
     = Return (3, None, (), \<lparr>l_R = (), l_N = 0\<rparr>)
   \<and> CopyN 2 None bufferWriter emptyReader [] () 2
     = Return (0, Some EOF, [], \<lparr>l_R = (), l_N = 2\<rparr>)"
proof -
  have b: "CopyN 2 None bufferWriter emptyReader [] () 2
     = Return (0, Some EOF, [], \<lparr>l_R = (), l_N = 2\<rparr>)"
    by code_simp
  have p2: "0 \<le>s (2 :: int64)"
    by (simp add: word_sle_eq)
  have a: "CopyN 4 None bufferWriter zeroReader [] () 3
     = Return (3, None, [0, 0, 0], \<lparr>l_R = (), l_N = 0\<rparr>)"
    by code_simp
  have c: "CopyN 3 (Some (discard_ReadFrom 5 (replicate 8 0))) discard_Write zeroReader () () 3
     = Return (3, None, (), \<lparr>l_R = (), l_N = 0\<rparr>)"
    by code_simp
  have p3: "0 \<le>s (3 :: int64)"
    by (simp add: word_sle_eq)
  have dc: "case Some (discard_ReadFrom 5 (replicate 8 0) ::
              (unit, unit LimitedReader) ReadFrom) of
              None \<Rightarrow> True | Some ReadFrom \<Rightarrow> ReadFrom_contract ReadFrom"
    by (simp add: discard_ReadFrom_contract)
  from CopyN_written_iff_nil [OF zeroReader_contract p3, of None 4 bufferWriter "[]" "()"]
    CopyN_written_iff_nil [OF zeroReader_contract p3 dc, of 3 discard_Write "()" "()"]
    CopyN_written_iff_nil [OF emptyReader_contract p2, of None 2 bufferWriter "[]" "()"]
    a b c
  show ?thesis by simp
qed

lemma LimitedReader_Read_error:
  "LimitedReader_Read rd l p = ((q, n, Some e), l') \<Longrightarrow> e \<noteq> EOF \<Longrightarrow>
     \<exists>r p1 q1 r1. rd r p1 = ((q1, n, Some e), r1)"
  by (cases "rd (l_R l) (if l_N l <s len_int64 p then take (unat (l_N l)) p else p)"
        rule: read_result_cases)
     (auto simp add: LimitedReader_Read_def Let_def split: if_splits)

lemma copyLoop_error:
  "copyLoop fuel wr rd d s buf written = Return (w', Some e, d', s') \<Longrightarrow>
     e = ErrShortWrite \<or> e = errInvalidWrite
     \<or> (\<exists>s0 p q n s1. rd s0 p = ((q, n, Some e), s1))
     \<or> (\<exists>d0 p n d1. wr d0 p = ((n, Some e), d1))"
proof (induction fuel arbitrary: d s buf written)
  case 0
  then show ?case by simp
next
  case (Suc fuel)
  obtain buf1 nr er s1 where rd: "rd s buf = ((buf1, nr, er), s1)"
    by (rule read_result_cases)
  obtain nw0 ew0 d1 where w: "wr d (take (unat nr) buf1) = ((nw0, ew0), d1)"
    by (rule write_result_cases)
  from Suc.prems rd w show ?case
    by (auto simp add: Let_def after_read_def split: if_splits option.splits dest: Suc.IH)
qed

text \<open>
  C2, as the code has it. \<open>CopyN\<close> is \<open>Copy\<close> from the source wrapped in a
  \<open>LimitedReader\<close> of budget \<open>n\<close>, with the error replaced: nil when \<open>n\<close> bytes were
  written, and \<open>EOF\<close>, the graceful end of input, when fewer than \<open>n\<close> were written and the
  copy reported no error. \<open>CopyN\<close> never makes an \<open>ErrUnexpectedEOF\<close> of its own: through the
  copy loop it returns one only when the source's \<open>Read\<close> or the destination's \<open>Write\<close>
  returned it.
\<close>

theorem CopyN_reports_EOF:
  "CopyN fuel rf wr rd dst src n =
     (case Copy fuel None rf (\<lambda>l. Some (l_N l)) wr (LimitedReader_Read rd) dst
             (LimitReader src n) of
        Return (written, err, d, l) \<Rightarrow>
          Return (written,
                  (if written = n then None
                   else if written <s n \<and> err = None then Some EOF
                   else err), d, l)
      | Panic \<Rightarrow> Panic
      | NoReturn \<Rightarrow> NoReturn)
   \<and> (\<forall>written d l.
         CopyN fuel None wr rd dst src n = Return (written, Some ErrUnexpectedEOF, d, l) \<longrightarrow>
           (\<exists>r p q k r1. rd r p = ((q, k, Some ErrUnexpectedEOF), r1))
           \<or> (\<exists>d0 p k d1. wr d0 p = ((k, Some ErrUnexpectedEOF), d1)))"
proof -
  let ?buf = "replicate (unat (copyBuffer_size (Some n))) (0 :: byte)"
  let ?loop = "copyLoop fuel wr (LimitedReader_Read rd) dst (LimitReader src n) ?buf 0"
  have unf: "Copy fuel None None (\<lambda>l. Some (l_N l)) wr (LimitedReader_Read rd) dst
               (LimitReader src n) = ?loop"
    by (simp add: Copy_def copyBuffer_def LimitReader_def)
  have first: "CopyN fuel rf wr rd dst src n =
     (case Copy fuel None rf (\<lambda>l. Some (l_N l)) wr (LimitedReader_Read rd) dst
             (LimitReader src n) of
        Return (written, err, d, l) \<Rightarrow>
          Return (written,
                  (if written = n then None
                   else if written <s n \<and> err = None then Some EOF
                   else err), d, l)
      | Panic \<Rightarrow> Panic
      | NoReturn \<Rightarrow> NoReturn)"
    by (auto simp add: CopyN_def split: outcome.splits)
  have second: "(\<exists>r p q k r1. rd r p = ((q, k, Some ErrUnexpectedEOF), r1))
           \<or> (\<exists>d0 p k d1. wr d0 p = ((k, Some ErrUnexpectedEOF), d1))"
    if "CopyN fuel None wr rd dst src n = Return (written, Some ErrUnexpectedEOF, d, l)"
    for written d l
  proof -
    from that have "?loop = Return (written, Some ErrUnexpectedEOF, d, l)"
      unfolding CopyN_def unf
      by (auto split: outcome.splits if_splits)
    from copyLoop_error [OF this] show ?thesis
    proof (elim disjE exE)
      fix s0 p q k s1
      assume "LimitedReader_Read rd s0 p = ((q, k, Some ErrUnexpectedEOF), s1)"
      from LimitedReader_Read_error [OF this] show ?thesis
        by blast
    qed auto
  qed
  from first second show ?thesis by blast
qed

theorem CopyN_reports_EOF_witness:
  "CopyN 2 None bufferWriter emptyReader [] () 1 = Return (0, Some EOF, [], \<lparr>l_R = (), l_N = 1\<rparr>)
   \<and> Copy 2 None None (\<lambda>l. Some (l_N l)) bufferWriter (LimitedReader_Read emptyReader) []
         (LimitReader () 1) = Return (0, None, [], \<lparr>l_R = (), l_N = 1\<rparr>)"
proof -
  have a: "Copy 2 None None (\<lambda>l. Some (l_N l)) bufferWriter (LimitedReader_Read emptyReader) []
         (LimitReader () 1) = Return (0, None, [], \<lparr>l_R = (), l_N = 1\<rparr>)"
    by code_simp
  from CopyN_reports_EOF [of 2 None bufferWriter emptyReader "[]" "()" 1] a
  show ?thesis
    by (simp add: word_sless_alt)
qed

text \<open>
  A source at its end and \<open>n = 1\<close>: nothing is written, the copy reports no error, and
  \<open>CopyN\<close> returns \<open>EOF\<close>, not \<open>ErrUnexpectedEOF\<close>.
\<close>

theorem CopyN_premature_end_counterexample:
  "CopyN 2 None bufferWriter emptyReader [] () 1 = Return (0, Some EOF, [], \<lparr>l_R = (), l_N = 1\<rparr>)
   \<and> EOF \<noteq> ErrUnexpectedEOF"
  by (simp add: CopyN_def Copy_def copyBuffer_def copyBuffer_size_def LimitReader_def
        LimitedReader_Read_def emptyReader_def after_read_def len_int64_def
        word_sless_alt word_sle_eq numeral_2_eq_2)

section \<open>NewSectionReader\<close>

text \<open>
  C10. For offsets \<open>off\<close> and lengths \<open>n\<close> that are not negative, \<open>NewSectionReader\<close> does not
  wrap around: when \<open>off + n\<close> exceeds \<open>2^63 - 1\<close> the limit of the section is \<open>2^63 - 1\<close>, and
  otherwise it is \<open>off + n\<close>; in both cases the limit is at least the base and \<open>Size\<close> is not
  negative.
\<close>

theorem NewSectionReader_clamps:
  assumes "0 \<le>s off" and "0 \<le>s n"
  shows "(9223372036854775807 < sint off + sint n \<longrightarrow>
            s_limit (NewSectionReader r off n) = maxint64)
       \<and> (sint off + sint n \<le> 9223372036854775807 \<longrightarrow>
            sint (s_limit (NewSectionReader r off n)) = sint off + sint n)
       \<and> s_base (NewSectionReader r off n) \<le>s s_limit (NewSectionReader r off n)
       \<and> 0 \<le>s Size (NewSectionReader r off n)"
proof -
  from assms have o0: "0 \<le> sint off" and n0: "0 \<le> sint n"
    by (simp_all add: word_sle_eq)
  have d: "sint (maxint64 - n) = 9223372036854775807 - sint n"
    using n0 sint64_bounds [of n] by (simp add: sint64_sub sint_maxint64)
  show ?thesis
  proof (cases "off \<le>s maxint64 - n")
    case True
    then have le: "sint off + sint n \<le> 9223372036854775807"
      using d by (simp add: word_sle_eq)
    then have s: "sint (n + off) = sint n + sint off"
      using o0 n0 by (simp add: sint64_add)
    have "sint (n + off - off) = sint n" by simp
    with True le s o0 n0 show ?thesis
      by (simp add: NewSectionReader_def Size_def word_sle_eq)
  next
    case False
    then have gt: "9223372036854775807 < sint off + sint n"
      using d by (simp add: word_sle_eq)
    have "sint (maxint64 - off) = 9223372036854775807 - sint off"
      using o0 sint64_bounds [of off] by (simp add: sint64_sub sint_maxint64)
    with False gt o0 sint64_bounds [of off] show ?thesis
      by (simp add: NewSectionReader_def Size_def word_sle_eq sint_maxint64)
  qed
qed

theorem NewSectionReader_clamps_witness:
  "0 \<le>s (9223372036854775800 :: int64) \<and> 0 \<le>s (100 :: int64)
   \<and> s_limit (NewSectionReader () 9223372036854775800 100) = maxint64
   \<and> s_base (NewSectionReader () 9223372036854775800 100)
       \<le>s s_limit (NewSectionReader () 9223372036854775800 100)
   \<and> 0 \<le>s Size (NewSectionReader () 9223372036854775800 100)"
  using NewSectionReader_clamps [of 9223372036854775800 100 "()"]
  by (simp add: word_sle_eq NewSectionReader_def Size_def maxint64_def)

section \<open>The positional reads a SectionReader issues\<close>

lemma NewSectionReader_limit:
  assumes "0 \<le> sint n"
  shows "sint off \<le> sint (s_limit (NewSectionReader r off n))
       \<and> sint (s_limit (NewSectionReader r off n)) \<le> sint off + sint n
       \<and> sint (s_limit (NewSectionReader r off n)) - sint off \<le> 9223372036854775807"
proof -
  have d: "sint (maxint64 - n) = 9223372036854775807 - sint n"
    using assms sint64_bounds [of n] by (simp add: sint64_sub sint_maxint64)
  show ?thesis
  proof (cases "off \<le>s maxint64 - n")
    case True
    then have le: "sint off + sint n \<le> 9223372036854775807"
      using d by (simp add: word_sle_eq)
    then have "sint (n + off) = sint n + sint off"
      using assms sint64_bounds [of off] by (simp add: sint64_add)
    with True le assms sint64_bounds [of n] show ?thesis
      by (simp add: NewSectionReader_def)
  next
    case False
    then have "9223372036854775807 < sint off + sint n"
      using d by (simp add: word_sle_eq)
    with False assms sint64_bounds [of off] sint64_bounds [of n] show ?thesis
      by (simp add: NewSectionReader_def sint_maxint64)
  qed
qed

lemma logged_result:
  "ra (fst ul) p off = (res, u') \<Longrightarrow> logged ra ul p off = (res, (u', snd ul @ [(off, length p)]))"
  by (simp add: logged_def)

lemma SectionReader_Seek_inv:
  assumes "SectionReader_inv b lim s"
  shows "SectionReader_inv b lim (snd (SectionReader_Seek s offset whence))"
  using assms
  by (auto simp add: SectionReader_Seek_def SectionReader_inv_def Let_def word_sless_alt)

lemma SectionReader_Read_inv:
  assumes c: "ReadAt_count_contract ra"
    and bl: "sint b \<le> sint lim" and sz: "sint lim - sint b \<le> 9223372036854775807"
    and lp: "length p < 9223372036854775808"
    and inv: "SectionReader_inv b lim s"
  shows "\<exists>res s'. SectionReader_Read (logged ra) s p = Return (res, s')
           \<and> SectionReader_inv b lim s'"
proof (cases "s_limit s \<le>s s_off s")
  case True
  with inv show ?thesis
    by (simp add: SectionReader_Read_def)
next
  case False
  from inv have sb: "s_base s = b" and sl: "s_limit s = lim" and bo: "sint b \<le> sint (s_off s)"
    and lg: "list_all (in_section (sint b) (sint lim)) (snd (s_r s))"
    by (simp_all add: SectionReader_inv_def)
  from False sl have ol: "sint (s_off s) < sint lim"
    by (simp add: word_sle_eq)
  define mx where "mx = s_limit s - s_off s"
  have smx: "sint mx = sint lim - sint (s_off s)"
    using sl bo ol sz sint64_bounds [of lim] by (simp add: mx_def sint64_sub)
  then have un: "unat mx = nat (sint lim - sint (s_off s))"
    using ol unat_nat_sint64 [of mx] by simp
  define p1 where "p1 = (if mx <s len_int64 p then take (unat mx) p else p)"
  have l1: "length p1 \<le> length p" and l2: "int (length p1) \<le> sint lim - sint (s_off s)"
    using lp smx un ol by (auto simp add: p1_def word_sless_alt sint_len_int64)
  have nopanic: "\<not> mx <s 0"
    using smx ol by (simp add: word_sless_alt)
  obtain q n e u' where ra: "ra (fst (s_r s)) p1 (s_off s) = ((q, n, e), u')"
    by (rule read_result_cases)
  from l1 lp have "length p1 < 9223372036854775808" by simp
  from ReadAt_count_contractD [OF c this ra]
  have n0: "0 \<le> sint n" and nl: "sint n \<le> int (length p1)"
    by simp_all
  have so: "sint (s_off s + n) = sint (s_off s) + sint n"
    using n0 nl l2 sint64_bounds [of lim] sint64_bounds [of "s_off s"]
    by (simp add: sint64_add)
  have res: "SectionReader_Read (logged ra) s p =
      Return ((q @ drop (length p1) p, n, e),
              s\<lparr>s_r := (u', snd (s_r s) @ [(s_off s, length p1)]), s_off := s_off s + n\<rparr>)"
    using False nopanic logged_result [where ra = ra and ul = "s_r s", OF ra]
    by (simp add: SectionReader_Read_def Let_def mx_def [symmetric] p1_def [symmetric])
  have "SectionReader_inv b lim
      (s\<lparr>s_r := (u', snd (s_r s) @ [(s_off s, length p1)]), s_off := s_off s + n\<rparr>)"
    using sb sl bo lg so n0 l2
    by (simp add: SectionReader_inv_def in_section_def)
  with res show ?thesis by blast
qed

lemma SectionReader_ReadAt_inv:
  assumes c: "ReadAt_count_contract ra"
    and bl: "sint b \<le> sint lim" and sz: "sint lim - sint b \<le> 9223372036854775807"
    and lp: "length p < 9223372036854775808"
    and inv: "SectionReader_inv b lim s"
  shows "\<exists>res s'. SectionReader_ReadAt (logged ra) s p off = Return (res, s')
           \<and> SectionReader_inv b lim s'"
proof (cases "off <s 0 \<or> s_limit s - s_base s \<le>s off")
  case True
  with inv show ?thesis
    by (simp add: SectionReader_ReadAt_def)
next
  case False
  from inv have sb: "s_base s = b" and sl: "s_limit s = lim" and bo: "sint b \<le> sint (s_off s)"
    and lg: "list_all (in_section (sint b) (sint lim)) (snd (s_r s))"
    by (simp_all add: SectionReader_inv_def)
  have ssz: "sint (s_limit s - s_base s) = sint lim - sint b"
    using sb sl bl sz sint64_bounds [of lim] by (simp add: sint64_sub)
  with False have o0: "0 \<le> sint off" and ol: "sint off < sint lim - sint b"
    by (simp_all add: word_sless_alt word_sle_eq)
  define off1 where "off1 = off + s_base s"
  have so1: "sint off1 = sint off + sint b"
    using sb o0 ol sint64_bounds [of lim] sint64_bounds [of b]
    by (simp add: off1_def sint64_add)
  define mx where "mx = s_limit s - off1"
  have smx: "sint mx = sint lim - sint off1"
    using sl so1 o0 ol sz sint64_bounds [of lim] by (simp add: mx_def sint64_sub)
  then have mpos: "0 < sint mx"
    using so1 ol by simp
  then have un: "unat mx = nat (sint lim - sint off1)"
    using smx unat_nat_sint64 [of mx] by simp
  have nopanic: "\<not> mx <s 0"
    using mpos by (simp add: word_sless_alt)
  have clip: "mx <s len_int64 p \<longleftrightarrow> sint lim - sint off1 < int (length p)"
    using lp smx by (simp add: word_sless_alt sint_len_int64)
  obtain res1 u1 where r1: "ra (fst (s_r s)) (take (unat mx) p) off1 = (res1, u1)"
    by fastforce
  obtain res2 u2 where r2: "ra (fst (s_r s)) p off1 = (res2, u2)"
    by fastforce
  obtain q1 n1 e1 where res1: "res1 = (q1, n1, e1)"
    by (cases res1)
  show ?thesis
  proof (cases "mx <s len_int64 p")
    case True
    have res: "SectionReader_ReadAt (logged ra) s p off =
        Return ((q1 @ drop (unat mx) p, n1, (if e1 = None then Some EOF else e1)),
                s\<lparr>s_r := (u1, snd (s_r s) @ [(off1, length (take (unat mx) p))])\<rparr>)"
      using False True nopanic logged_result [where ra = ra and ul = "s_r s", OF r1] res1
      by (simp add: SectionReader_ReadAt_def Let_def off1_def [symmetric] mx_def [symmetric])
    have "length (take (unat mx) p) = nat (sint lim - sint off1)"
      using True clip un by simp
    then have "SectionReader_inv b lim
        (s\<lparr>s_r := (u1, snd (s_r s) @ [(off1, length (take (unat mx) p))])\<rparr>)"
      using sb sl bo lg so1 o0 ol
      by (simp add: SectionReader_inv_def in_section_def)
    with res show ?thesis by blast
  next
    case nc: False
    have res: "SectionReader_ReadAt (logged ra) s p off =
        Return (res2, s\<lparr>s_r := (u2, snd (s_r s) @ [(off1, length p)])\<rparr>)"
      using False nc logged_result [where ra = ra and ul = "s_r s", OF r2]
      by (simp add: SectionReader_ReadAt_def Let_def off1_def [symmetric] mx_def [symmetric])
    have "SectionReader_inv b lim (s\<lparr>s_r := (u2, snd (s_r s) @ [(off1, length p)])\<rparr>)"
      using sb sl bo lg so1 o0 ol nc clip
      by (simp add: SectionReader_inv_def in_section_def)
    with res show ?thesis by blast
  qed
qed

lemma SectionReader_run_inv:
  assumes c: "ReadAt_count_contract ra"
    and bl: "sint b \<le> sint lim" and sz: "sint lim - sint b \<le> 9223372036854775807"
  shows "list_all op_slice_ok ops \<Longrightarrow> SectionReader_inv b lim s \<Longrightarrow>
     \<exists>s'. SectionReader_run (logged ra) s ops = Return s' \<and> SectionReader_inv b lim s'"
proof (induction ops arbitrary: s)
  case Nil
  then show ?case by simp
next
  case (Cons x ops)
  from Cons.prems have rest: "list_all op_slice_ok ops" by simp
  show ?case
  proof (cases x)
    case (OpRead p)
    with Cons.prems have "length p < 9223372036854775808" by simp
    from SectionReader_Read_inv [OF c bl sz this Cons.prems(2)]
    obtain res s1 where "SectionReader_Read (logged ra) s p = Return (res, s1)"
      and "SectionReader_inv b lim s1" by blast
    with Cons.IH [OF rest, of s1] OpRead show ?thesis by simp
  next
    case (OpSeek offset whence)
    obtain res s1 where sk: "SectionReader_Seek s offset whence = (res, s1)"
      by fastforce
    with SectionReader_Seek_inv [OF Cons.prems(2), of offset whence]
    have "SectionReader_inv b lim s1" by simp
    with Cons.IH [OF rest, of s1] OpSeek sk show ?thesis by simp
  next
    case (OpReadAt p off)
    with Cons.prems have "length p < 9223372036854775808" by simp
    from SectionReader_ReadAt_inv [OF c bl sz this Cons.prems(2), of off]
    obtain res s1 where "SectionReader_ReadAt (logged ra) s p off = Return (res, s1)"
      and "SectionReader_inv b lim s1" by blast
    with Cons.IH [OF rest, of s1] OpReadAt show ?thesis by simp
  qed
qed

text \<open>
  C6. A \<open>SectionReader\<close> made by \<open>NewSectionReader(r, base, n)\<close> with \<open>n >= 0\<close>, over a
  \<open>ReaderAt\<close> whose counts are within \<open>0 <= n <= len(p)\<close>, serves any sequence of \<open>Read\<close>,
  \<open>Seek\<close> and \<open>ReadAt\<close> calls, with any slices and any seek targets, without a panic, and
  every positional read that reaches the underlying \<open>ReaderAt\<close> covers a range of bytes
  inside \<open>[base, base + n)\<close>: it starts at or after \<open>base\<close> and ends at or before
  \<open>base + n\<close>.
\<close>

theorem SectionReader_reads_within_section:
  assumes "ReadAt_count_contract ra" and "0 \<le>s n" and "list_all op_slice_ok ops"
  shows "\<exists>s'. SectionReader_run (logged ra) (NewSectionReader (u, []) base n) ops = Return s'
           \<and> list_all (in_section (sint base) (sint base + sint n)) (snd (s_r s'))"
proof -
  let ?s = "NewSectionReader (u, [] :: (int64 \<times> nat) list) base n"
  from assms(2) have n0: "0 \<le> sint n" by (simp add: word_sle_eq)
  note lim = NewSectionReader_limit [OF n0, of base "(u, [] :: (int64 \<times> nat) list)"]
  have inv: "SectionReader_inv base (s_limit ?s) ?s"
    by (simp add: SectionReader_inv_def NewSectionReader_def)
  from SectionReader_run_inv [OF assms(1) _ _ assms(3) inv] lim
  obtain s' where run: "SectionReader_run (logged ra) ?s ops = Return s'"
    and inv': "SectionReader_inv base (s_limit ?s) s'" by blast
  from inv' have "list_all (in_section (sint base) (sint (s_limit ?s))) (snd (s_r s'))"
    by (simp add: SectionReader_inv_def)
  then have "list_all (in_section (sint base) (sint base + sint n)) (snd (s_r s'))"
    using lim by (auto simp add: list_all_iff in_section_def)
  with run show ?thesis by blast
qed

lemma zeroReaderAt_count_contract: "ReadAt_count_contract zeroReaderAt"
  using zeroReaderAt_contract by (simp add: ReadAt_contract_def)

theorem SectionReader_reads_within_section_witness:
  "SectionReader_run (logged zeroReaderAt) (NewSectionReader ((), []) 10 4)
     [OpRead [1, 1, 1], OpRead [1, 1, 1], OpSeek 100 SeekStart, OpRead [1],
      OpSeek (- 1) SeekEnd, OpRead [1, 1], OpReadAt [1, 1, 1, 1, 1, 1] 2, OpReadAt [1] 4]
     = Return \<lparr>s_r = ((), [(10, 3), (13, 1), (13, 1), (12, 2)]), s_base = 10, s_off = 14,
                 s_limit = 14\<rparr>
   \<and> list_all (in_section 10 14) [(10, 3), (13, 1), (13, 1), (12, 2)]"
proof -
  have a: "SectionReader_run (logged zeroReaderAt) (NewSectionReader ((), []) 10 4)
     [OpRead [1, 1, 1], OpRead [1, 1, 1], OpSeek 100 SeekStart, OpRead [1],
      OpSeek (- 1) SeekEnd, OpRead [1, 1], OpReadAt [1, 1, 1, 1, 1, 1] 2, OpReadAt [1] 4]
     = Return \<lparr>s_r = ((), [(10, 3), (13, 1), (13, 1), (12, 2)]), s_base = 10, s_off = 14,
                 s_limit = 14\<rparr>"
    by code_simp
  have n: "0 \<le>s (4 :: int64)"
    by (simp add: word_sle_eq)
  from SectionReader_reads_within_section [OF zeroReaderAt_count_contract n,
      of "[OpRead [1, 1, 1], OpRead [1, 1, 1], OpSeek 100 SeekStart, OpRead [1],
           OpSeek (- 1) SeekEnd, OpRead [1, 1], OpReadAt [1, 1, 1, 1, 1, 1] 2, OpReadAt [1] 4]"
         "()" 10] a
  show ?thesis by simp
qed

section \<open>SectionReader.ReadAt\<close>

lemma Size_minus_off: "s_limit s - (off + s_base s) = Size s - off"
  by (simp add: Size_def)

text \<open>
  C7. \<open>ReadAt(p, off)\<close> on any \<open>SectionReader\<close>: with \<open>off\<close> negative or at or beyond the
  section's size it returns \<open>(0, EOF)\<close> and leaves the reader, with the underlying
  \<open>ReaderAt\<close>, as it was; when \<open>off + len(p)\<close> crosses the end of the section it reads
  only the \<open>Size - off\<close> bytes up to the end and returns a non-nil error, \<open>EOF\<close> when the
  underlying read gave none; and over an underlying \<open>ReaderAt\<close> that honours its contract
  a count below \<open>len(p)\<close> never comes with a nil error. The call never panics.
\<close>

theorem SectionReader_ReadAt_bounds:
  assumes "length p < 9223372036854775808"
  shows "(off <s 0 \<or> Size s \<le>s off \<longrightarrow>
            SectionReader_ReadAt ra s p off = Return ((p, 0, Some EOF), s))
       \<and> (\<not> (off <s 0 \<or> Size s \<le>s off) \<and> sint (Size s) < sint off + int (length p) \<longrightarrow>
            (\<exists>q n err u.
               ra (s_r s) (take (nat (sint (Size s) - sint off)) p) (off + s_base s)
                 = ((q, n, err), u)
               \<and> SectionReader_ReadAt ra s p off =
                   Return ((q @ drop (nat (sint (Size s) - sint off)) p, n,
                            Some (case err of None \<Rightarrow> EOF | Some e \<Rightarrow> e)), s\<lparr>s_r := u\<rparr>)))
       \<and> (ReadAt_contract ra \<longrightarrow>
            (\<forall>q n err s'. SectionReader_ReadAt ra s p off = Return ((q, n, err), s') \<longrightarrow>
               sint n < int (length p) \<longrightarrow> err \<noteq> None))
       \<and> SectionReader_ReadAt ra s p off \<noteq> Panic"
proof (cases "off <s 0 \<or> Size s \<le>s off")
  case True
  then show ?thesis
    by (auto simp add: SectionReader_ReadAt_def Size_def)
next
  case False
  then have o0: "0 \<le> sint off" and oS: "sint off < sint (Size s)"
    by (simp_all add: word_sless_alt word_sle_eq)
  have mx: "sint (Size s - off) = sint (Size s) - sint off"
    using o0 oS sint64_bounds [of "Size s"] by (simp add: sint64_sub)
  then have pos: "0 < sint (Size s - off)"
    using oS by simp
  then have un: "unat (Size s - off) = nat (sint (Size s) - sint off)"
    using unat_nat_sint64 [of "Size s - off"] mx by simp
  have nopanic: "\<not> Size s - off <s 0"
    using pos by (simp add: word_sless_alt)
  have clip: "Size s - off <s len_int64 p \<longleftrightarrow> sint (Size s) < sint off + int (length p)"
    using assms mx by (auto simp add: word_sless_alt sint_len_int64)
  obtain q n err u where
    r1: "ra (s_r s) (take (nat (sint (Size s) - sint off)) p) (off + s_base s) = ((q, n, err), u)"
    by (rule read_result_cases)
  obtain q2 n2 err2 u2 where
    r2: "ra (s_r s) p (off + s_base s) = ((q2, n2, err2), u2)"
    by (rule read_result_cases)
  have unfolded: "SectionReader_ReadAt ra s p off =
      (if sint (Size s) < sint off + int (length p)
       then Return ((q @ drop (nat (sint (Size s) - sint off)) p, n,
                     (if err = None then Some EOF else err)), s\<lparr>s_r := u\<rparr>)
       else Return ((q2, n2, err2), s\<lparr>s_r := u2\<rparr>))"
    using False r1 r2 nopanic clip un
    by (simp add: SectionReader_ReadAt_def Let_def Size_minus_off Size_def [symmetric])
  have short: "ReadAt_contract ra \<Longrightarrow> sint n2 < int (length p) \<Longrightarrow> err2 \<noteq> None"
    using assms r2 ReadAt_contractD [of ra p "s_r s" "off + s_base s" q2 n2 err2 u2] by simp
  show ?thesis
    using False r1 unfolded short
    by (auto split: option.splits if_splits)
qed


theorem SectionReader_ReadAt_bounds_witness:
  "length [1, 1, 1, 1, 1, 1 :: byte] < 9223372036854775808
   \<and> ReadAt_contract zeroReaderAt
   \<and> SectionReader_ReadAt zeroReaderAt (NewSectionReader () 10 4) [1, 1, 1, 1, 1, 1] 2
       = Return (([0, 0, 1, 1, 1, 1], 2, Some EOF), NewSectionReader () 10 4)
   \<and> SectionReader_ReadAt zeroReaderAt (NewSectionReader () 10 4) [1, 1, 1, 1, 1, 1] 4
       = Return (([1, 1, 1, 1, 1, 1], 0, Some EOF), NewSectionReader () 10 4)"
  using SectionReader_ReadAt_bounds [of "[1, 1, 1, 1, 1, 1]" 2 "NewSectionReader () 10 4" zeroReaderAt]
    SectionReader_ReadAt_bounds [of "[1, 1, 1, 1, 1, 1]" 4 "NewSectionReader () 10 4" zeroReaderAt]
    zeroReaderAt_contract
  by (simp add: NewSectionReader_def Size_def maxint64_def word_sle_eq word_sless_alt
        zeroReaderAt_def len_int64_def)

section \<open>teeReader.Read\<close>

text \<open>
  C8, as the code has it. Over a reader that honours its contract, a \<open>Read\<close> of the tee
  reader that got \<open>n > 0\<close> bytes hands exactly those bytes to the side writer before it
  returns. When that write returns an error, \<open>Read\<close> returns the error together with the
  count the write reported; when it returns none, \<open>Read\<close> returns the count and the
  error of the underlying read, whatever count the write reported. With \<open>n = 0\<close> the side
  writer is not called.
\<close>

theorem teeReader_Read_writes_what_it_read:
  assumes "Read_contract rd" and "length p < 9223372036854775808"
    and "rd (t_r t) p = ((q, n, err), r')"
  shows "(0 < sint n \<longrightarrow>
            (\<exists>n' err' w'.
               wr (t_w t) (take (nat (sint n)) q) = ((n', err'), w')
               \<and> teeReader_Read rd wr t p =
                   Return ((q, (if err' = None then n else n'),
                               (if err' = None then err else err')),
                           \<lparr>t_r = r', t_w = w'\<rparr>)))
       \<and> (sint n \<le> 0 \<longrightarrow>
            teeReader_Read rd wr t p = Return ((q, n, err), \<lparr>t_r = r', t_w = t_w t\<rparr>))"
proof -
  from Read_contractD [OF assms] have lq: "length q = length p"
    and n0: "0 \<le> sint n" and nl: "sint n \<le> int (length p)"
    by simp_all
  have un: "unat n = nat (sint n)"
    using n0 by (rule unat_nat_sint64)
  obtain n' err' w' where w: "wr (t_w t) (take (nat (sint n)) q) = ((n', err'), w')"
    by (rule write_result_cases)
  show ?thesis
    using assms(3) lq nl un w
    by (auto simp add: teeReader_Read_def word_sless_alt)
qed

theorem teeReader_Read_writes_what_it_read_witness:
  "Read_contract zeroReader \<and> length [9, 9, 9 :: byte] < 9223372036854775808
   \<and> zeroReader () [9, 9, 9] = (([0, 0, 0], 3, None), ())
   \<and> teeReader_Read zeroReader bufferWriter (TeeReader () [7]) [9, 9, 9]
       = Return (([0, 0, 0], 3, None), \<lparr>t_r = (), t_w = [7, 0, 0, 0]\<rparr>)"
  using teeReader_Read_writes_what_it_read
    [of zeroReader "[9, 9, 9]" "TeeReader () [7]" "[0, 0, 0]" 3 None "()" bufferWriter]
    zeroReader_contract
  by (simp add: zeroReader_def bufferWriter_def TeeReader_def len_int64_def)

text \<open>
  The count is not always that of the read: the source fills four bytes, the side writer
  takes one and fails, and \<open>Read\<close> returns 1.
\<close>

theorem teeReader_Read_count_counterexample:
  "zeroReader () [9, 9, 9, 9] = (([0, 0, 0, 0], 4, None), ())
   \<and> teeReader_Read zeroReader failingWriter (TeeReader () []) [9, 9, 9, 9]
       = Return (([0, 0, 0, 0], 1, Some (OtherError ''disk full'')), \<lparr>t_r = (), t_w = [0]\<rparr>)"
  by (simp add: teeReader_Read_def zeroReader_def failingWriter_def TeeReader_def len_int64_def
        word_sless_alt)

section \<open>OffsetWriter.Seek\<close>

text \<open>
  C9, as the code has it. With \<open>whence\<close> \<open>SeekStart\<close> or \<open>SeekCurrent\<close>,
  \<open>OffsetWriter.Seek\<close> does what \<open>SectionReader.Seek\<close> does on a reader with the same base
  and cursor: the target is \<open>offset\<close> plus the base or the cursor, a target below the base
  is rejected with \<open>errOffset\<close> and the cursor stays, and otherwise the cursor moves to the
  target and the offset relative to the base is returned, with no upper bound. Every other
  \<open>whence\<close>, \<open>SeekEnd\<close> among them, is rejected with \<open>errWhence\<close> and nothing changes.
\<close>

theorem OffsetWriter_Seek_like_SectionReader:
  assumes "o_base ow = s_base s" and "o_off ow = s_off s"
  shows "(whence = SeekStart \<or> whence = SeekCurrent \<longrightarrow>
            fst (OffsetWriter_Seek ow offset whence) = fst (SectionReader_Seek s offset whence)
          \<and> o_off (snd (OffsetWriter_Seek ow offset whence))
              = s_off (snd (SectionReader_Seek s offset whence))
          \<and> o_base (snd (OffsetWriter_Seek ow offset whence)) = o_base ow
          \<and> o_w (snd (OffsetWriter_Seek ow offset whence)) = o_w ow
          \<and> OffsetWriter_Seek ow offset whence =
              (let target = (if whence = SeekStart then offset + o_base ow
                             else offset + o_off ow)
               in if target <s o_base ow then ((0, Some errOffset), ow)
                  else ((target - o_base ow, None), ow\<lparr>o_off := target\<rparr>)))
       \<and> (whence \<noteq> SeekStart \<and> whence \<noteq> SeekCurrent \<longrightarrow>
            OffsetWriter_Seek ow offset whence = ((0, Some errWhence), ow))"
  using assms
  by (auto simp add: OffsetWriter_Seek_def SectionReader_Seek_def Let_def
        SeekStart_def SeekCurrent_def SeekEnd_def)

theorem OffsetWriter_Seek_like_SectionReader_witness:
  "fst (OffsetWriter_Seek \<lparr>o_w = (), o_base = 100, o_off = 130\<rparr> 5 SeekCurrent) = (35, None)
   \<and> fst (SectionReader_Seek \<lparr>s_r = (), s_base = 100, s_off = 130, s_limit = 200\<rparr> 5 SeekCurrent)
       = (35, None)
   \<and> o_off (snd (OffsetWriter_Seek \<lparr>o_w = (), o_base = 100, o_off = 130\<rparr> 5 SeekCurrent)) = 135
   \<and> OffsetWriter_Seek \<lparr>o_w = (), o_base = 100, o_off = 130\<rparr> 7 SeekEnd
       = ((0, Some errWhence), \<lparr>o_w = (), o_base = 100, o_off = 130\<rparr>)"
  using OffsetWriter_Seek_like_SectionReader
    [of "\<lparr>o_w = (), o_base = 100, o_off = 130\<rparr>"
        "\<lparr>s_r = (), s_base = 100, s_off = 130, s_limit = 200\<rparr>" SeekCurrent 5]
    OffsetWriter_Seek_like_SectionReader
    [of "\<lparr>o_w = (), o_base = 100, o_off = 130\<rparr>"
        "\<lparr>s_r = (), s_base = 100, s_off = 130, s_limit = 200\<rparr>" SeekEnd 7]
  by (simp add: SectionReader_Seek_def Let_def SeekStart_def SeekCurrent_def SeekEnd_def
        word_sless_alt)

text \<open>
  \<open>SeekEnd\<close> is not resolved against an end: the writer rejects it where the section
  reader seeks to its limit.
\<close>

theorem OffsetWriter_Seek_end_counterexample:
  "fst (OffsetWriter_Seek (NewOffsetWriter () 0) 0 SeekEnd) = (0, Some errWhence)
   \<and> fst (SectionReader_Seek (NewSectionReader () 0 10) 0 SeekEnd) = (10, None)"
  by (simp add: OffsetWriter_Seek_def SectionReader_Seek_def NewOffsetWriter_def
        NewSectionReader_def Let_def SeekStart_def SeekCurrent_def SeekEnd_def maxint64_def
        word_sless_alt word_sle_eq)

end
